theory Spec2Isabelle
  imports Main
begin

section \<open>Plain values of objectUtils.js\<close>

text \<open>
  The functions of \<^verbatim>\<open>src/objectUtils.js\<close> work on JavaScript values. The model keeps
  the values the specification calls plain values: the primitives, dates, arrays
  (Sequences) and plain objects (Mappings). It also has functions, which a read of
  an inherited member of a plain object returns.

  \<^item> \<open>Num n\<close> stands for a number other than NaN. The functions only ask a number
    whether it is truthy and whether it is \<^verbatim>\<open>===\<close> to another one, so the finite
    numbers are represented by integers; \<^verbatim>\<open>-0\<close> is identified with \<^verbatim>\<open>0\<close> (both are
    falsy and \<^verbatim>\<open>0 === -0\<close>). \<open>NaN\<close> is kept apart: it is falsy and not \<^verbatim>\<open>===\<close> to
    itself.
  \<^item> \<open>Date t\<close> is a date object with time value \<open>t\<close> and no own property.
  \<^item> \<open>Arr xs\<close> is a dense array without extra properties.
  \<^item> \<open>Obj kvs\<close> is a plain object with prototype \<^verbatim>\<open>Object.prototype\<close>; \<open>kvs\<close> lists its
    own enumerable properties in the order of their insertion. \<^verbatim>\<open>Object.keys\<close>
    enumerates them in this order, except that it moves keys that are array
    indices to the front: where a result below is a property list with such
    keys, its content is meant, not the place of these keys. Property reads and
    \<open>isEqual\<close> do not depend on the order. A well-formed object has pairwise
    distinct keys, see \<open>well_formed\<close>. The key \<^verbatim>\<open>__proto__\<close> may be an own key
    (\<^verbatim>\<open>JSON.parse('{"__proto__": 1}')\<close> has it).
  \<^item> \<open>Function f\<close> is a function object, \<open>f\<close> its identity: two functions are \<^verbatim>\<open>===\<close>
    when they are the same function. The functions of the module only ask a
    function for its \<^verbatim>\<open>typeof\<close>, which is \<^verbatim>\<open>'function'\<close>, and whether it is truthy.

  Strings are lists of characters (ASCII is assumed where \<^verbatim>\<open>length\<close> or an index
  of a string is read). Values are trees: an object that is reachable along two
  paths is modelled as two copies, and no value is cyclic. The built-in
  prototypes are as the language defines them (nothing has been added to
  \<^verbatim>\<open>Object.prototype\<close>).

  A step that leaves these values has the outcome \<open>Unmodelled\<close>: a read that
  finds the prototype itself under \<^verbatim>\<open>__proto__\<close>, a read that finds an inherited
  member of a value other than a plain object, a read or an assignment on a
  function, an assignment that changes a prototype, and an assignment that gives
  an array holes or extra properties or a date a property. A thrown \<^verbatim>\<open>TypeError\<close>
  is the outcome \<open>TypeError\<close>. Both end the call.
\<close>

datatype jsval =
    Undefined
  | Null
  | Bool bool
  | Num int
  | NaN
  | Str string
  | Date int
  | Arr "jsval list"
  | Obj "(string \<times> jsval) list"
  | Function string

type_synonym fields = "(string \<times> jsval) list"

datatype error = TypeError | Unmodelled

text \<open>Sequencing of steps that may end the call, and a loop of such steps.\<close>

definition and_then :: "error + 'a \<Rightarrow> ('a \<Rightarrow> error + 'b) \<Rightarrow> error + 'b" where
  "and_then m f = (case m of Inl e \<Rightarrow> Inl e | Inr x \<Rightarrow> f x)"

fun for_each :: "('a \<Rightarrow> 's \<Rightarrow> error + 's) \<Rightarrow> 'a list \<Rightarrow> 's \<Rightarrow> error + 's" where
  "for_each f [] s = Inr s"
| "for_each f (x # xs) s = and_then (f x s) (for_each f xs)"

lemma and_then_cong [fundef_cong]:
  "m = n \<Longrightarrow> (\<And>x. n = Inr x \<Longrightarrow> f x = g x) \<Longrightarrow> and_then m f = and_then n g"
  by (cases n) (simp_all add: and_then_def)

lemma for_each_cong [fundef_cong]:
  "xs = ys \<Longrightarrow> s = t \<Longrightarrow> (\<And>x s. x \<in> set ys \<Longrightarrow> f x s = g x s) \<Longrightarrow>
   for_each f xs s = for_each g ys t"
proof (induction ys arbitrary: xs s t)
  case Nil
  then show ?case by simp
next
  case (Cons y ys)
  have "for_each f ys = for_each g ys"
  proof
    fix u show "for_each f ys u = for_each g ys u"
      by (rule Cons.IH) (simp_all add: Cons.prems(3))
  qed
  with Cons.prems show ?case by simp
qed

text \<open>\<^verbatim>\<open>!v\<close> is \<open>\<not> truthy v\<close>.\<close>

fun truthy :: "jsval \<Rightarrow> bool" where
  "truthy Undefined = False"
| "truthy Null = False"
| "truthy (Bool b) = b"
| "truthy (Num n) = (n \<noteq> 0)"
| "truthy NaN = False"
| "truthy (Str s) = (s \<noteq> [])"
| "truthy (Date t) = True"
| "truthy (Arr xs) = True"
| "truthy (Obj kvs) = True"
| "truthy (Function f) = True"

text \<open>\<^verbatim>\<open>typeof v === 'object'\<close>; it holds of \<^verbatim>\<open>null\<close>, and not of a function.\<close>

fun typeof_object :: "jsval \<Rightarrow> bool" where
  "typeof_object Null = True"
| "typeof_object (Date t) = True"
| "typeof_object (Arr xs) = True"
| "typeof_object (Obj kvs) = True"
| "typeof_object v = False"

text \<open>\<^verbatim>\<open>typeof v === 'string'\<close>, \<^verbatim>\<open>Array.isArray(v)\<close> and \<^verbatim>\<open>v == null\<close>.\<close>

fun typeof_string :: "jsval \<Rightarrow> bool" where
  "typeof_string (Str s) = True"
| "typeof_string v = False"

fun isArray :: "jsval \<Rightarrow> bool" where
  "isArray (Arr xs) = True"
| "isArray v = False"

fun nullish :: "jsval \<Rightarrow> bool" where
  "nullish Undefined = True"
| "nullish Null = True"
| "nullish v = False"

text \<open>
  \<^verbatim>\<open>a === b\<close>. Primitives are compared by value, functions by their identity. Two
  objects are \<^verbatim>\<open>===\<close> only when they are the same object; the model compares values
  that share no object, so the comparison of two objects is \<open>False\<close>. Where the
  two sides do share an object the code answers \<^verbatim>\<open>true\<close> at once, so
  \<open>isEqual a b = True\<close> in the model implies the same answer of the code.
\<close>

fun strict_eq :: "jsval \<Rightarrow> jsval \<Rightarrow> bool" where
  "strict_eq Undefined Undefined = True"
| "strict_eq Null Null = True"
| "strict_eq (Bool a) (Bool b) = (a = b)"
| "strict_eq (Num a) (Num b) = (a = b)"
| "strict_eq (Str a) (Str b) = (a = b)"
| "strict_eq (Function f) (Function g) = (f = g)"
| "strict_eq a b = False"

text \<open>The decimal numeral of an array index, as \<^verbatim>\<open>Object.keys\<close> prints it.\<close>

fun show_nat :: "nat \<Rightarrow> string" where
  "show_nat n =
     (if n < 10 then [char_of (48 + n)]
      else show_nat (n div 10) @ [char_of (48 + n mod 10)])"

declare show_nat.simps [simp del]

text \<open>
  The own enumerable properties of a value with \<^verbatim>\<open>typeof v === 'object'\<close>, as
  pairs \<open>(key, v[key])\<close> in the order of \<^verbatim>\<open>Object.keys(v)\<close>: the entries of a plain
  object, the indexed elements of an array, nothing for a date (and nothing for
  any other value: the source asks for the keys of objects only). The loops
  \<^verbatim>\<open>Object.keys(obj).forEach(key => ... obj[key] ...)\<close> of the source are modelled
  as loops over these pairs: an own property is read as its own value, whatever
  its name.
\<close>

fun own_fields :: "jsval \<Rightarrow> fields" where
  "own_fields (Obj kvs) = kvs"
| "own_fields (Arr xs) = zip (map show_nat [0..<length xs]) xs"
| "own_fields v = []"

text \<open>
  \<open>own_value obj key\<close> is \<^verbatim>\<open>obj[key]\<close> for a key that \<^verbatim>\<open>Object.keys(obj)\<close> lists.
\<close>

definition own_value :: "jsval \<Rightarrow> string \<Rightarrow> jsval" where
  "own_value obj key = (case map_of (own_fields obj) key of Some v \<Rightarrow> v | None \<Rightarrow> Undefined)"

text \<open>
  The own properties that a read finds: those of \<open>own_fields\<close>, and \<^verbatim>\<open>length\<close> and the
  indexed characters of a string and \<^verbatim>\<open>length\<close> of an array.
\<close>

fun own_prop :: "jsval \<Rightarrow> string \<Rightarrow> jsval option" where
  "own_prop (Obj kvs) key = map_of kvs key"
| "own_prop (Arr xs) key =
     (if key = ''length'' then Some (Num (int (length xs)))
      else map_of (own_fields (Arr xs)) key)"
| "own_prop (Str s) key =
     (if key = ''length'' then Some (Num (int (length s)))
      else map_of (zip (map show_nat [0..<length s]) (map (\<lambda>c. Str [c]) s)) key)"
| "own_prop v key = None"

text \<open>
  The names of the members a value inherits: the string-keyed properties of
  \<^verbatim>\<open>Object.prototype\<close> and of the prototype of its kind, as ECMAScript 2024
  (with Annex B) lists them. \<^verbatim>\<open>Object.prototype\<close> has the accessor \<^verbatim>\<open>__proto__\<close>, which
  reads and sets the prototype, and eleven functions, which are writable data
  properties.
\<close>

definition object_prototype_functions :: "string list" where
  "object_prototype_functions =
     [''constructor'', ''__defineGetter__'', ''__defineSetter__'', ''hasOwnProperty'',
      ''__lookupGetter__'', ''__lookupSetter__'', ''isPrototypeOf'', ''propertyIsEnumerable'',
      ''toString'', ''valueOf'', ''toLocaleString'']"

definition object_prototype_names :: "string list" where
  "object_prototype_names = ''__proto__'' # object_prototype_functions"

definition array_prototype_names :: "string list" where
  "array_prototype_names =
     [''at'', ''concat'', ''copyWithin'', ''entries'', ''every'', ''fill'', ''filter'', ''find'',
      ''findIndex'', ''findLast'', ''findLastIndex'', ''flat'', ''flatMap'', ''forEach'',
      ''includes'', ''indexOf'', ''join'', ''keys'', ''lastIndexOf'', ''map'', ''pop'', ''push'',
      ''reduce'', ''reduceRight'', ''reverse'', ''shift'', ''slice'', ''some'', ''sort'',
      ''splice'', ''toReversed'', ''toSorted'', ''toSpliced'', ''unshift'', ''values'', ''with'']"

definition string_prototype_names :: "string list" where
  "string_prototype_names =
     [''anchor'', ''at'', ''big'', ''blink'', ''bold'', ''charAt'', ''charCodeAt'', ''codePointAt'',
      ''concat'', ''endsWith'', ''fixed'', ''fontcolor'', ''fontsize'', ''includes'', ''indexOf'',
      ''isWellFormed'', ''italics'', ''lastIndexOf'', ''link'', ''localeCompare'', ''match'',
      ''matchAll'', ''normalize'', ''padEnd'', ''padStart'', ''repeat'', ''replace'',
      ''replaceAll'', ''search'', ''slice'', ''small'', ''split'', ''startsWith'', ''strike'',
      ''sub'', ''substr'', ''substring'', ''sup'', ''toLocaleLowerCase'', ''toLocaleUpperCase'',
      ''toLowerCase'', ''toUpperCase'', ''toWellFormed'', ''trim'', ''trimEnd'', ''trimLeft'',
      ''trimRight'', ''trimStart'']"

definition number_prototype_names :: "string list" where
  "number_prototype_names = [''toExponential'', ''toFixed'', ''toPrecision'']"

definition date_prototype_names :: "string list" where
  "date_prototype_names =
     [''getDate'', ''getDay'', ''getFullYear'', ''getHours'', ''getMilliseconds'', ''getMinutes'',
      ''getMonth'', ''getSeconds'', ''getTime'', ''getTimezoneOffset'', ''getUTCDate'',
      ''getUTCDay'', ''getUTCFullYear'', ''getUTCHours'', ''getUTCMilliseconds'',
      ''getUTCMinutes'', ''getUTCMonth'', ''getUTCSeconds'', ''getYear'', ''setDate'',
      ''setFullYear'', ''setHours'', ''setMilliseconds'', ''setMinutes'', ''setMonth'',
      ''setSeconds'', ''setTime'', ''setUTCDate'', ''setUTCFullYear'', ''setUTCHours'',
      ''setUTCMilliseconds'', ''setUTCMinutes'', ''setUTCMonth'', ''setUTCSeconds'', ''setYear'',
      ''toDateString'', ''toGMTString'', ''toISOString'', ''toJSON'', ''toLocaleDateString'',
      ''toLocaleTimeString'', ''toTimeString'', ''toUTCString'']"

text \<open>
  What a read finds for a key that is not an own property. On a plain object it
  is the function of \<^verbatim>\<open>Object.prototype\<close> of that name (for \<^verbatim>\<open>constructor\<close>, the
  function \<^verbatim>\<open>Object\<close>), the prototype for \<^verbatim>\<open>__proto__\<close>, and \<^verbatim>\<open>undefined\<close> for every other
  key. On the other values, an inherited member is left outside the model, and
  so is every member of a function.
\<close>

definition member_of :: "string list \<Rightarrow> string \<Rightarrow> error + jsval" where
  "member_of names key =
     (if key \<in> set (names @ object_prototype_names) then Inl Unmodelled else Inr Undefined)"

fun inherited :: "jsval \<Rightarrow> string \<Rightarrow> error + jsval" where
  "inherited (Obj kvs) key =
     (if key = ''__proto__'' then Inl Unmodelled
      else if key \<in> set object_prototype_functions
      then Inr (Function (''Object.prototype.'' @ key))
      else Inr Undefined)"
| "inherited (Arr xs) key = member_of array_prototype_names key"
| "inherited (Str s) key = member_of string_prototype_names key"
| "inherited (Date t) key = member_of date_prototype_names key"
| "inherited (Bool b) key = member_of [] key"
| "inherited (Num n) key = member_of number_prototype_names key"
| "inherited NaN key = member_of number_prototype_names key"
| "inherited (Function f) key = Inl Unmodelled"
| "inherited Undefined key = Inl TypeError"
| "inherited Null key = Inl TypeError"

text \<open>
  \<^verbatim>\<open>target[key]\<close>: the own property, else what the value inherits. A read on
  \<^verbatim>\<open>null\<close> or \<^verbatim>\<open>undefined\<close> throws (the source guards every read against it).
\<close>

definition get_prop :: "jsval \<Rightarrow> string \<Rightarrow> error + jsval" where
  "get_prop target key =
     (if nullish target then Inl TypeError
      else case own_prop target key of
             Some v \<Rightarrow> Inr v
           | None \<Rightarrow> inherited target key)"

text \<open>
  \<open>put_own\<close> creates or updates an own data property in a property list: an
  existing key keeps its place, a new key goes to the end.
\<close>

fun put_own :: "fields \<Rightarrow> string \<Rightarrow> jsval \<Rightarrow> fields" where
  "put_own [] key v = [(key, v)]"
| "put_own ((k, x) # kvs) key v =
     (if k = key then (key, v) # kvs else (k, x) # put_own kvs key v)"

text \<open>
  The setter of \<^verbatim>\<open>__proto__\<close> takes an object (a function is one) or \<^verbatim>\<open>null\<close> as the new
  prototype and ignores every other value.
\<close>

fun new_prototype :: "jsval \<Rightarrow> bool" where
  "new_prototype Undefined = False"
| "new_prototype (Bool b) = False"
| "new_prototype (Num n) = False"
| "new_prototype NaN = False"
| "new_prototype (Str s) = False"
| "new_prototype v = True"

text \<open>
  \<^verbatim>\<open>o[key] = v\<close> on a plain object, given by its property list. An own key is
  updated. A new key becomes an own property (the functions of \<^verbatim>\<open>Object.prototype\<close>
  are writable, so their names are keys like any other), except \<^verbatim>\<open>__proto__\<close>: the
  assignment then calls the setter of \<^verbatim>\<open>Object.prototype\<close>, which ignores a
  primitive \<open>v\<close> and makes an object or \<^verbatim>\<open>null\<close> the prototype of \<open>o\<close>; no own key is
  created.
\<close>

definition assign :: "fields \<Rightarrow> string \<Rightarrow> jsval \<Rightarrow> error + fields" where
  "assign kvs key v =
     (if key = ''__proto__'' \<and> map_of kvs key = None
      then (if new_prototype v then Inl Unmodelled else Inr kvs)
      else Inr (put_own kvs key v))"

text \<open>
  \<^verbatim>\<open>target[key] = v\<close> on any value. The module is an ES module, hence strict code:
  the assignment to a property of a primitive throws a \<^verbatim>\<open>TypeError\<close> (but
  \<^verbatim>\<open>__proto__\<close>, whose setter returns at once for a primitive). An array takes an
  element at an index up to its length; every other assignment to an array, and
  every assignment to a date or a function, gives an object with holes or extra
  properties.
\<close>

fun set_prop :: "jsval \<Rightarrow> string \<Rightarrow> jsval \<Rightarrow> error + jsval" where
  "set_prop Undefined key v = Inl TypeError"
| "set_prop Null key v = Inl TypeError"
| "set_prop (Obj kvs) key v = and_then (assign kvs key v) (\<lambda>kvs'. Inr (Obj kvs'))"
| "set_prop (Arr xs) key v =
     (if key = ''__proto__'' then (if new_prototype v then Inl Unmodelled else Inr (Arr xs))
      else case filter (\<lambda>i. show_nat i = key) [0..<Suc (length xs)] of
             [] \<Rightarrow> Inl Unmodelled
           | i # _ \<Rightarrow> Inr (Arr (if i < length xs then xs[i := v] else xs @ [v])))"
| "set_prop (Date t) key v =
     (if key = ''__proto__'' \<and> \<not> new_prototype v then Inr (Date t) else Inl Unmodelled)"
| "set_prop (Function f) key v = Inl Unmodelled"
| "set_prop target key v = (if key = ''__proto__'' then Inr target else Inl TypeError)"

text \<open>\<^verbatim>\<open>path.split('.')\<close>: never empty, \<^verbatim>\<open>''.split('.')\<close> is \<^verbatim>\<open>['']\<close>.\<close>

fun split_dot :: "string \<Rightarrow> string list" where
  "split_dot [] = [[]]"
| "split_dot (c # cs) =
     (if c = CHR ''.'' then [] # split_dot cs
      else (c # hd (split_dot cs)) # tl (split_dot cs))"

text \<open>A property of a value is smaller than the value: the recursions below end.\<close>

lemma own_fields_size:
  "(key, v) \<in> set (own_fields obj) \<Longrightarrow> size v < size obj"
proof (cases obj)
  case (Arr xs)
  assume "(key, v) \<in> set (own_fields obj)"
  with Arr have "v \<in> set xs" by (auto dest: set_zip_rightD)
  then have "size v \<le> size_list size xs" by (simp add: size_list_estimation')
  with Arr show ?thesis by simp
next
  case (Obj kvs)
  assume "(key, v) \<in> set (own_fields obj)"
  with Obj have "(key, v) \<in> set kvs" by simp
  then have "size_prod (\<lambda>x. 0) size (key, v) \<le> size_list (size_prod (\<lambda>x. 0) size) kvs"
    by (rule size_list_estimation') simp
  with Obj show ?thesis by simp
qed simp_all

section \<open>deepClone\<close>

text \<open>
  \<^verbatim>\<open>obj.map(item => deepClone(item))\<close> collects the clones of the elements;
  \<^verbatim>\<open>Object.keys(obj).forEach(key => { cloned[key] = deepClone(obj[key]) })\<close> assigns
  the clones of the values to the fresh object \<open>cloned\<close>.
\<close>

function deepClone :: "jsval \<Rightarrow> error + jsval" where
  "deepClone (Date t) = Inr (Date t)"
| "deepClone (Arr xs) =
     and_then (for_each (\<lambda>item ys. and_then (deepClone item) (\<lambda>y. Inr (ys @ [y]))) xs [])
       (\<lambda>ys. Inr (Arr ys))"
| "deepClone (Obj kvs) =
     and_then
       (for_each (\<lambda>(key, v) cloned. and_then (deepClone v) (assign cloned key)) kvs [])
       (\<lambda>cloned. Inr (Obj cloned))"
| "deepClone Undefined = Inr Undefined"
| "deepClone Null = Inr Null"
| "deepClone (Bool b) = Inr (Bool b)"
| "deepClone (Num n) = Inr (Num n)"
| "deepClone NaN = Inr NaN"
| "deepClone (Str s) = Inr (Str s)"
| "deepClone (Function f) = Inr (Function f)"
  by pat_completeness auto
termination
proof (relation "measure size", goal_cases)
  case 1
  show ?case by simp
next
  case (2 xs item ys)
  then have "size item \<le> size_list size xs" by (simp add: size_list_estimation')
  then show ?case by simp
next
  case (3 kvs kv cloned key v)
  then have "(key, v) \<in> set (own_fields (Obj kvs))" by simp
  from own_fields_size [OF this] show ?case by simp
qed

section \<open>deepMerge\<close>

text \<open>\<^verbatim>\<open>merged[key] || {}\<close>, for the value \<open>v\<close> read under \<^verbatim>\<open>merged[key]\<close>.\<close>

definition or_empty :: "jsval \<Rightarrow> jsval" where
  "or_empty v = (if truthy v then v else Obj [])"

text \<open>
  The weight of a value counts its nodes; it bounds the size of what \<open>deepMerge\<close>
  builds and gives the termination order below.
\<close>

fun wt :: "jsval \<Rightarrow> nat" where
  "wt (Arr xs) = Suc (sum_list (map wt xs))"
| "wt (Obj kvs) = Suc (sum_list (map (\<lambda>(key, v). wt v) kvs))"
| "wt v = Suc 0"

definition wts :: "fields \<Rightarrow> nat" where
  "wts kvs = sum_list (map (\<lambda>(key, v). wt v) kvs)"

text \<open>
  \<open>deepMerge objects\<close> is \<^verbatim>\<open>objects.reduce(..., {})\<close>: \<open>reduce_objects\<close> is the reduction
  over the arguments with the accumulator \<open>merged\<close>, \<open>forEach_key\<close> the loop
  \<^verbatim>\<open>Object.keys(obj).forEach\<close> over the entries of one argument. The accumulator
  is a plain object, given by its property list. The recursive call
  \<^verbatim>\<open>deepMerge(merged[key] || {}, obj[key])\<close> takes a part of the accumulator as
  its first argument, so the recursion is nested.
\<close>

function deepMerge :: "jsval list \<Rightarrow> error + jsval"
  and reduce_objects :: "jsval list \<Rightarrow> fields \<Rightarrow> error + fields"
  and forEach_key :: "fields \<Rightarrow> fields \<Rightarrow> error + fields"
where
  "deepMerge objects = and_then (reduce_objects objects []) (\<lambda>merged. Inr (Obj merged))"
| "reduce_objects [] merged = Inr merged"
| "reduce_objects (obj # objects) merged =
     and_then
       (if truthy obj \<and> typeof_object obj then forEach_key (own_fields obj) merged
        else Inr merged)
       (reduce_objects objects)"
| "forEach_key [] merged = Inr merged"
| "forEach_key ((key, v) # kvs) merged =
     and_then
       (if truthy v \<and> typeof_object v \<and> \<not> isArray v
        then and_then (get_prop (Obj merged) key)
               (\<lambda>old. and_then (deepMerge [or_empty old, v]) (assign merged key))
        else assign merged key v)
       (forEach_key kvs)"
  by pat_completeness auto

definition old_wt :: "fields \<Rightarrow> string \<Rightarrow> nat" where
  "old_wt merged key = (case map_of merged key of None \<Rightarrow> 0 | Some v \<Rightarrow> wt v)"

lemma wt_pos: "0 < wt v"
  by (cases v) simp_all

lemma wts_simps [simp]:
  "wts [] = 0" "wts ((key, v) # kvs) = wt v + wts kvs"
  by (simp_all add: wts_def)

lemma wts_zip: "length ks = length xs \<Longrightarrow> wts (zip ks xs) = sum_list (map wt xs)"
  by (induction ks xs rule: list_induct2) simp_all

lemma wts_own_fields: "wts (own_fields v) = wt v - 1"
  by (cases v) (simp_all add: wts_zip, simp add: wts_def)

lemma wts_put_own: "wts (put_own merged key x) + old_wt merged key = wts merged + wt x"
  by (induction merged) (auto simp add: old_wt_def)

lemma old_wt_le: "old_wt merged key \<le> wts merged"
  by (induction merged) (auto simp add: old_wt_def)

lemma wts_assign:
  "assign merged key x = Inr merged' \<Longrightarrow> wts merged' + old_wt merged key \<le> wts merged + wt x"
  using wts_put_own [of merged key x]
  by (auto simp add: assign_def old_wt_def split: if_splits)

lemma wt_or_empty:
  "get_prop (Obj merged) key = Inr old \<Longrightarrow> wt (or_empty old) - 1 \<le> old_wt merged key"
  by (cases "map_of merged key")
    (auto simp add: get_prop_def or_empty_def old_wt_def split: if_splits)

lemma wts_assign_plain: "assign merged key v = Inr merged' \<Longrightarrow> wts merged' \<le> wts merged + wt v"
  using wts_assign [of merged key v merged'] by simp

lemma wts_assign_merged:
  assumes "get_prop (Obj merged) key = Inr old"
    and "wt x \<le> Suc (wt (or_empty old) - 1 + (wt v - 1))"
    and "assign merged key x = Inr merged'"
  shows "wts merged' \<le> wts merged + wt v"
proof -
  from assms(2) wt_or_empty [OF assms(1)] wt_pos [of v]
  have "wt x \<le> old_wt merged key + wt v" by simp
  with wts_assign [OF assms(3)] show ?thesis by simp
qed

text \<open>The step of \<open>forEach_key\<close> for one entry, and what it adds to the weight.\<close>

definition merge_entry :: "string \<Rightarrow> jsval \<Rightarrow> fields \<Rightarrow> error + fields" where
  "merge_entry key v merged =
     (if truthy v \<and> typeof_object v \<and> \<not> isArray v
      then and_then (get_prop (Obj merged) key)
             (\<lambda>old. and_then (deepMerge [or_empty old, v]) (assign merged key))
      else assign merged key v)"

lemma merge_entry_weight:
  assumes sub: "\<And>old r. truthy v \<and> typeof_object v \<and> \<not> isArray v \<Longrightarrow>
      get_prop (Obj merged) key = Inr old \<Longrightarrow> deepMerge [or_empty old, v] = Inr r \<Longrightarrow>
      wt r \<le> Suc (wt (or_empty old) - 1 + (wt v - 1))"
    and step: "merge_entry key v merged = Inr merged'"
  shows "wts merged' \<le> wts merged + wt v"
proof (cases "truthy v \<and> typeof_object v \<and> \<not> isArray v")
  case True
  with step obtain old r where
    g: "get_prop (Obj merged) key = Inr old" and
    d: "deepMerge [or_empty old, v] = Inr r" and
    a: "assign merged key r = Inr merged'"
    by (auto simp add: merge_entry_def and_then_def split: sum.splits)
  from g sub [OF True g d] a show ?thesis by (rule wts_assign_merged)
next
  case False
  with step have "assign merged key v = Inr merged'" by (auto simp add: merge_entry_def)
  then show ?thesis by (rule wts_assign_plain)
qed

lemma merge_weight:
  "deepMerge_reduce_objects_forEach_key_dom (Inl objects) \<Longrightarrow>
     deepMerge objects = Inr r \<Longrightarrow>
     wt r \<le> Suc (sum_list (map (\<lambda>obj. wt obj - 1) objects))"
  "deepMerge_reduce_objects_forEach_key_dom (Inr (Inl (objects, merged))) \<Longrightarrow>
     reduce_objects objects merged = Inr res \<Longrightarrow>
     wts res \<le> wts merged + sum_list (map (\<lambda>obj. wt obj - 1) objects)"
  "deepMerge_reduce_objects_forEach_key_dom (Inr (Inr (kvs, merged))) \<Longrightarrow>
     forEach_key kvs merged = Inr res \<Longrightarrow>
     wts res \<le> wts merged + wts kvs"
proof (induct arbitrary: r and res and res rule: deepMerge_reduce_objects_forEach_key.pinduct)
  case (1 objects)
  then show ?case
    by (auto simp add: deepMerge.psimps and_then_def wts_def split: sum.splits)
next
  case (2 merged)
  then show ?case by (simp add: reduce_objects.psimps)
next
  case (3 obj objects merged)
  let ?first = "if truthy obj \<and> typeof_object obj then forEach_key (own_fields obj) merged
                else Inr merged"
  from 3(1,4) obtain m where f: "?first = Inr m" and rest: "reduce_objects objects m = Inr res"
    by (auto simp add: reduce_objects.psimps and_then_def split: sum.splits)
  have "wts m \<le> wts merged + (wt obj - 1)"
  proof (cases "truthy obj \<and> typeof_object obj")
    case True
    with f have "forEach_key (own_fields obj) merged = Inr m" by simp
    from 3(2) [OF True this] show ?thesis by (simp add: wts_own_fields)
  next
    case False
    with f show ?thesis by auto
  qed
  moreover from 3(3) [OF f rest] have "wts res \<le> wts m + sum_list (map (\<lambda>obj. wt obj - 1) objects)" .
  ultimately show ?case by simp
next
  case (4 merged)
  then show ?case by (simp add: forEach_key.psimps)
next
  case (5 key v kvs merged)
  from 5(1,4) obtain m where f: "merge_entry key v merged = Inr m"
    and rest: "forEach_key kvs m = Inr res"
    by (auto simp add: forEach_key.psimps merge_entry_def and_then_def split: sum.splits)
  have "wts m \<le> wts merged + wt v"
  proof (rule merge_entry_weight)
    show "merge_entry key v merged = Inr m" by (rule f)
    fix old r
    assume "truthy v \<and> typeof_object v \<and> \<not> isArray v"
      and "get_prop (Obj merged) key = Inr old"
      and "deepMerge [or_empty old, v] = Inr r"
    then have "wt r \<le> Suc (sum_list (map (\<lambda>obj. wt obj - 1) [or_empty old, v]))"
      by (rule 5(2))
    then show "wt r \<le> Suc (wt (or_empty old) - 1 + (wt v - 1))" by simp
  qed
  moreover have "wts res \<le> wts m + wts kvs"
    using f rest by (intro 5(3)) (simp_all add: merge_entry_def)
  ultimately show ?case by simp
qed

termination deepMerge
proof (relation "inv_image (less_than <*lex*> less_than)
     (\<lambda>x. case x of
         Inl objects \<Rightarrow> (sum_list (map (\<lambda>obj. wt obj - 1) objects),
                          Suc (sum_list (map (\<lambda>obj. Suc (length (own_fields obj))) objects)))
       | Inr (Inl (objects, merged)) \<Rightarrow>
           (sum_list (map (\<lambda>obj. wt obj - 1) objects) + wts merged,
            sum_list (map (\<lambda>obj. Suc (length (own_fields obj))) objects))
       | Inr (Inr (kvs, merged)) \<Rightarrow> (wts kvs + wts merged, length kvs))", goal_cases)
  case 1
  show ?case by auto
next
  case (2 objects)
  show ?case by simp
next
  case (3 obj objects merged)
  show ?case by (auto simp add: wts_own_fields)
next
  case (4 obj objects merged m)
  have "wts m \<le> wts merged + (wt obj - 1)"
  proof (cases "truthy obj \<and> typeof_object obj")
    case True
    with 4 merge_weight(3) [of "own_fields obj" merged m] show ?thesis
      by (simp add: wts_own_fields)
  next
    case False
    with 4 show ?thesis by auto
  qed
  then show ?case by auto
next
  case (5 key v kvs merged old)
  from wt_or_empty [OF 5(2)] old_wt_le [of merged key] wt_pos [of v]
  have "wt (or_empty old) - 1 + (wt v - 1) < wt v + wts kvs + wts merged"
    by linarith
  then show ?case by simp
next
  case (6 key v kvs merged m)
  have "wts m \<le> wts merged + wt v"
  proof (rule merge_entry_weight)
    from 6(1) show "merge_entry key v merged = Inr m" by (simp add: merge_entry_def)
    fix old r
    assume c: "truthy v \<and> typeof_object v \<and> \<not> isArray v"
      and g: "get_prop (Obj merged) key = Inr old"
      and d: "deepMerge [or_empty old, v] = Inr r"
    from merge_weight(1) [OF 6(2) [OF c g] d]
    show "wt r \<le> Suc (wt (or_empty old) - 1 + (wt v - 1))" by simp
  qed
  then show ?case by auto
qed

declare deepMerge.simps [simp del]

section \<open>getNestedValue and setNestedValue\<close>

text \<open>
  One round of the loop of \<^verbatim>\<open>getNestedValue\<close> evaluates
  \<^verbatim>\<open>(result && result[key]) ? result[key] : defaultValue\<close>: \<open>found\<close> is the value of
  \<^verbatim>\<open>result && result[key]\<close>, which is \<open>result\<close> itself when that is falsy.
\<close>

fun get_loop :: "string list \<Rightarrow> jsval \<Rightarrow> jsval \<Rightarrow> error + jsval" where
  "get_loop [] result defaultValue = Inr result"
| "get_loop (key # keys) result defaultValue =
     and_then (if truthy result then get_prop result key else Inr result)
       (\<lambda>found.
          let result' = (if truthy found then found else defaultValue)
          in if result' = Undefined then Inr defaultValue
             else get_loop keys result' defaultValue)"

text \<open>
  The third parameter has the default \<^verbatim>\<open>undefined\<close>: a call without fallback is a
  call with \<open>Undefined\<close>.
\<close>

definition getNestedValue :: "jsval \<Rightarrow> jsval \<Rightarrow> jsval \<Rightarrow> error + jsval" where
  "getNestedValue obj path defaultValue =
     (case path of
        Str p \<Rightarrow> if \<not> truthy obj then Inr defaultValue
                 else get_loop (split_dot p) obj defaultValue
      | _ \<Rightarrow> Inr defaultValue)"

text \<open>
  \<open>set_loop keys lastKey current value\<close> runs the loop of \<^verbatim>\<open>setNestedValue\<close> from the
  node \<open>current\<close> and returns that node as the assignments leave it. The source
  goes on with \<^verbatim>\<open>current = current[key]\<close> and mutates that child in place; in the
  tree the child as the rest of the loop leaves it is put back under \<open>key\<close>,
  which at that point is an own property of \<open>current\<close>.
\<close>

fun set_loop :: "string list \<Rightarrow> string \<Rightarrow> jsval \<Rightarrow> jsval \<Rightarrow> error + jsval" where
  "set_loop [] lastKey current value = set_prop current lastKey value"
| "set_loop (key # keys) lastKey current value =
     and_then (get_prop current key)
       (\<lambda>old.
          and_then (if \<not> truthy old \<or> \<not> typeof_object old
                    then set_prop current key (Obj []) else Inr current)
            (\<lambda>current'.
               and_then (get_prop current' key)
                 (\<lambda>child.
                    and_then (set_loop keys lastKey child value)
                      (set_prop current' key))))"

text \<open>
  The result is the root as the call leaves it (the source returns the reference
  it was given), or the exception.
\<close>

definition setNestedValue :: "jsval \<Rightarrow> jsval \<Rightarrow> jsval \<Rightarrow> error + jsval" where
  "setNestedValue obj path value =
     (case path of
        Str p \<Rightarrow> if \<not> truthy obj then Inr obj
                 else set_loop (butlast (split_dot p)) (last (split_dot p)) obj value
      | _ \<Rightarrow> Inr obj)"

section \<open>flattenObject and unflattenObject\<close>

text \<open>
  \<^verbatim>\<open>Object.assign(acc, src)\<close> on the property list of \<open>acc\<close>: every own property of
  \<open>src\<close> is assigned to \<open>acc\<close>.
\<close>

definition object_assign :: "fields \<Rightarrow> jsval \<Rightarrow> error + fields" where
  "object_assign acc src = for_each (\<lambda>(key, v) acc. assign acc key v) (own_fields src) acc"

function flattenObject :: "jsval \<Rightarrow> string \<Rightarrow> error + jsval" where
  "flattenObject obj prefix =
     (if \<not> truthy obj \<or> \<not> typeof_object obj then Inr (Obj [])
      else and_then
             (for_each (\<lambda>(key, v) acc.
                  let newKey = (if prefix \<noteq> [] then prefix @ ''.'' @ key else key)
                  in if typeof_object v \<and> v \<noteq> Null \<and> \<not> isArray v
                     then and_then (flattenObject v newKey) (object_assign acc)
                     else assign acc newKey v)
                (own_fields obj) [])
             (\<lambda>acc. Inr (Obj acc)))"
  by pat_completeness auto
termination
  by (relation "measure (\<lambda>(obj, prefix). size obj)") (auto dest: own_fields_size)

declare flattenObject.simps [simp del]

text \<open>
  \<^verbatim>\<open>for (const key in obj)\<close> visits the own enumerable keys; the members a plain
  value inherits are not enumerable.
\<close>

definition unflattenObject :: "jsval \<Rightarrow> error + jsval" where
  "unflattenObject obj =
     (if \<not> truthy obj \<or> \<not> typeof_object obj then Inr (Obj [])
      else for_each (\<lambda>(key, v) result. setNestedValue result (Str key) v)
             (own_fields obj) (Obj []))"

section \<open>isEqual\<close>

text \<open>
  \<^verbatim>\<open>obj2[key]\<close> is read after the test \<^verbatim>\<open>keys2.includes(key)\<close>, hence as an own
  property of \<open>obj2\<close>.
\<close>

function isEqual :: "jsval \<Rightarrow> jsval \<Rightarrow> bool" where
  "isEqual obj1 obj2 =
     (if strict_eq obj1 obj2 then True
      else if nullish obj1 \<or> nullish obj2 then False
      else if \<not> typeof_object obj1 \<or> \<not> typeof_object obj2 then False
      else let keys2 = map fst (own_fields obj2) in
        if length (own_fields obj1) \<noteq> length keys2 then False
        else list_all (\<lambda>(key, v). key \<in> set keys2 \<and> isEqual v (own_value obj2 key))
               (own_fields obj1))"
  by pat_completeness auto
termination
  by (relation "measure (\<lambda>(obj1, obj2). size obj1)") (auto dest: own_fields_size)

declare isEqual.simps [simp del]

section \<open>The values the statements are about\<close>

text \<open>
  The keys of a JavaScript object are pairwise distinct; \<open>well_formed\<close> says so of every
  \<open>Obj\<close> inside a value. \<open>nan_free\<close> holds of the values in which the number NaN
  does not occur, \<open>proto_free\<close> of the values in which no Mapping has the own key
  \<^verbatim>\<open>__proto__\<close>.
\<close>

fun well_formed :: "jsval \<Rightarrow> bool" where
  "well_formed (Arr xs) = list_all well_formed xs"
| "well_formed (Obj kvs) = (distinct (map fst kvs) \<and> list_all (\<lambda>(key, v). well_formed v) kvs)"
| "well_formed v = True"

fun nan_free :: "jsval \<Rightarrow> bool" where
  "nan_free NaN = False"
| "nan_free (Arr xs) = list_all nan_free xs"
| "nan_free (Obj kvs) = list_all (\<lambda>(key, v). nan_free v) kvs"
| "nan_free v = True"

fun proto_free :: "jsval \<Rightarrow> bool" where
  "proto_free (Arr xs) = list_all proto_free xs"
| "proto_free (Obj kvs) = list_all (\<lambda>(key, v). key \<noteq> ''__proto__'' \<and> proto_free v) kvs"
| "proto_free v = True"

fun is_mapping :: "jsval \<Rightarrow> bool" where
  "is_mapping (Obj kvs) = True"
| "is_mapping v = False"

text \<open>
  The Mappings for which the identity of C9 is stated: in \<open>plain_keys\<close> no key is
  \<^verbatim>\<open>__proto__\<close>, in the Mapping and in the Mappings nested in it. Sequences are not
  entered: \<open>deepMerge\<close> passes them on as they are.
\<close>

fun plain_keys :: "fields \<Rightarrow> bool" where
  "plain_keys [] = True"
| "plain_keys ((key, Obj sub) # kvs) =
     (key \<noteq> ''__proto__'' \<and> plain_keys sub \<and> plain_keys kvs)"
| "plain_keys ((key, v) # kvs) = (key \<noteq> ''__proto__'' \<and> plain_keys kvs)"

text \<open>
  The roots and paths for which the round trip of C2 is stated. Every node that
  \<open>setNestedValue\<close> assigns into along the path is a Mapping or a Sequence; the
  node after a key is the value under that key if it is an object, and a new empty
  Mapping otherwise (\<open>next_node\<close>). At a Mapping, no key of the path is
  \<^verbatim>\<open>__proto__\<close>, unless it is an own key of that Mapping. At a Sequence, the key is
  one of its indices; the last key of the path may also be its length, which
  appends an element.
\<close>

definition next_node :: "jsval \<Rightarrow> jsval" where
  "next_node old = (if truthy old \<and> typeof_object old then old else Obj [])"

fun settable_walk :: "string list \<Rightarrow> string \<Rightarrow> jsval \<Rightarrow> bool" where
  "settable_walk [] lastKey (Obj kvs) = (lastKey \<noteq> ''__proto__'' \<or> map_of kvs lastKey \<noteq> None)"
| "settable_walk [] lastKey (Arr xs) = (lastKey \<in> set (map show_nat [0..<Suc (length xs)]))"
| "settable_walk (key # keys) lastKey (Obj kvs) =
     (case map_of kvs key of
        Some child \<Rightarrow> settable_walk keys lastKey (next_node child)
      | None \<Rightarrow> key \<noteq> ''__proto__'' \<and> settable_walk keys lastKey (Obj []))"
| "settable_walk (key # keys) lastKey (Arr xs) =
     (case filter (\<lambda>i. show_nat i = key) [0..<length xs] of
        [] \<Rightarrow> False
      | i # _ \<Rightarrow> settable_walk keys lastKey (next_node (xs ! i)))"
| "settable_walk keys lastKey v = False"

text \<open>
  The specification of \<open>flattenObject\<close>, in its own words: the leaves of a Mapping
  are the nested values that are not Mappings, each with the path of keys that
  leads to it; the output has one entry per leaf, keyed by the dot-joined path.
  \<open>leaf_paths\<close> lists the leaves in pre-order, \<open>leaf_entries\<close> is the flat Mapping
  the specification describes.
\<close>

fun dot_join :: "string list \<Rightarrow> string" where
  "dot_join [] = []"
| "dot_join [k] = k"
| "dot_join (k # k' # ks) = k @ ''.'' @ dot_join (k' # ks)"

fun leaf_paths :: "fields \<Rightarrow> (string list \<times> jsval) list" where
  "leaf_paths [] = []"
| "leaf_paths ((key, Obj sub) # kvs) =
     map (\<lambda>(p, x). (key # p, x)) (leaf_paths sub) @ leaf_paths kvs"
| "leaf_paths ((key, v) # kvs) = ([key], v) # leaf_paths kvs"

definition leaf_entries :: "fields \<Rightarrow> fields" where
  "leaf_entries kvs = map (\<lambda>(p, x). (dot_join p, x)) (leaf_paths kvs)"

text \<open>
  \<open>date_free\<close>: no value of a nested Mapping is a date.
  \<open>root_branch_keys_nonempty\<close>: no key of the root that leads to a nested Mapping
  is the empty string (below the root the empty string is a key like any other).
\<close>

fun date_free :: "fields \<Rightarrow> bool" where
  "date_free [] = True"
| "date_free ((key, Obj sub) # kvs) = (date_free sub \<and> date_free kvs)"
| "date_free ((key, Date t) # kvs) = False"
| "date_free ((key, v) # kvs) = date_free kvs"

definition root_branch_keys_nonempty :: "fields \<Rightarrow> bool" where
  "root_branch_keys_nonempty kvs = list_all (\<lambda>(key, v). \<not> (is_mapping v \<and> key = [])) kvs"

text \<open>
  The Mappings for which the round trip of C3 is stated: no key contains a dot or
  is \<^verbatim>\<open>__proto__\<close>, no value is a date, and no nested Mapping is empty. Sequences are
  leaves and are not entered.
\<close>

fun roundtrip_safe :: "fields \<Rightarrow> bool" where
  "roundtrip_safe [] = True"
| "roundtrip_safe ((key, Obj sub) # kvs) =
     (CHR ''.'' \<notin> set key \<and> key \<noteq> ''__proto__'' \<and> sub \<noteq> []
      \<and> roundtrip_safe sub \<and> roundtrip_safe kvs)"
| "roundtrip_safe ((key, Date t) # kvs) = False"
| "roundtrip_safe ((key, v) # kvs) =
     (CHR ''.'' \<notin> set key \<and> key \<noteq> ''__proto__'' \<and> roundtrip_safe kvs)"

section \<open>Array indices as keys\<close>

lemma show_nat_nonempty: "show_nat n \<noteq> []"
  by (subst show_nat.simps) simp

lemma digit_inj: "a < 10 \<Longrightarrow> b < 10 \<Longrightarrow> (char_of (48 + a) :: char) = char_of (48 + b) \<Longrightarrow> a = b"
  for a b :: nat
proof -
  assume a: "a < 10" and b: "b < 10" and e: "(char_of (48 + a) :: char) = char_of (48 + b)"
  from e have "(48 + a) mod 256 = (48 + b) mod 256"
    by (simp add: char_of_eq_iff take_bit_eq_mod)
  with a b show "a = b" by simp
qed

lemma show_nat_length: "length (show_nat n) = Suc 0 \<longleftrightarrow> n < 10"
  by (subst show_nat.simps) (simp add: show_nat_nonempty)

lemma show_nat_inj: "show_nat n = show_nat m \<Longrightarrow> n = m"
proof (induction n arbitrary: m rule: show_nat.induct)
  case (1 n)
  from 1(2) have "length (show_nat n) = Suc 0 \<longleftrightarrow> length (show_nat m) = Suc 0" by simp
  then have same: "n < 10 \<longleftrightarrow> m < 10" by (simp only: show_nat_length)
  show ?case
  proof (cases "n < 10")
    case True
    with same have "m < 10" by simp
    with True 1(2) show ?thesis
      by (simp add: show_nat.simps [of n] show_nat.simps [of m] digit_inj)
  next
    case False
    with same have m: "\<not> m < 10" by simp
    with False 1(2) have e: "show_nat (n div 10) = show_nat (m div 10)"
      and d: "(char_of (48 + n mod 10) :: char) = char_of (48 + m mod 10)"
      by (simp_all add: show_nat.simps [of n] show_nat.simps [of m])
    from 1(1) [OF False e] have "n div 10 = m div 10" .
    moreover from d have "n mod 10 = m mod 10" by (intro digit_inj) simp_all
    ultimately show ?thesis by (metis div_mult_mod_eq)
  qed
qed

lemma distinct_index_keys: "distinct (map show_nat [0..<n])"
  by (simp add: distinct_map inj_on_def show_nat_inj)

lemma show_nat_last: "last (show_nat n) = char_of (48 + n mod 10)"
  by (subst show_nat.simps) simp

lemma show_nat_last_digit: "of_char (last (show_nat n)) < (58 :: nat)"
proof -
  define d where "d = n mod 10"
  have d: "d < 10" by (simp add: d_def)
  have "(of_char (char_of (48 + d) :: char) :: nat) = (48 + d) mod 256" by simp
  also from d have "\<dots> = 48 + d" by simp
  finally show ?thesis using d by (simp add: show_nat_last d_def)
qed

lemma show_nat_not_length: "show_nat n \<noteq> ''length''"
proof
  assume "show_nat n = ''length''"
  with show_nat_last_digit [of n] show False by simp
qed

lemma show_nat_not_proto: "show_nat n \<noteq> ''__proto__''"
proof
  assume "show_nat n = ''__proto__''"
  with show_nat_last_digit [of n] show False by simp
qed

lemma filter_index:
  "i < n \<Longrightarrow> filter (\<lambda>j. show_nat j = show_nat i) [0..<n] = [i]"
proof -
  assume i: "i < n"
  have "filter (\<lambda>j. show_nat j = show_nat i) [0..<n] = filter (\<lambda>j. j = i) [0..<n]"
    by (rule filter_cong) (auto dest: show_nat_inj)
  also from i have "\<dots> = [i]"
    by (induction n) (auto simp add: filter_empty_conv)
  finally show ?thesis .
qed

text \<open>Reading and writing an element of an array under its index.\<close>

lemma own_prop_Arr_index:
  "i < length xs \<Longrightarrow> own_prop (Arr xs) (show_nat i) = Some (xs ! i)"
proof -
  assume i: "i < length xs"
  have "map_of (zip (map show_nat [0..<length xs]) xs) (show_nat i) = Some (xs ! i)"
  proof (rule map_of_is_SomeI)
    show "distinct (map fst (zip (map show_nat [0..<length xs]) xs))"
      by (simp add: distinct_index_keys)
    from i show "(show_nat i, xs ! i) \<in> set (zip (map show_nat [0..<length xs]) xs)"
      by (auto simp add: set_zip intro!: exI [of _ i])
  qed
  then show ?thesis by (simp add: show_nat_not_length)
qed

lemma get_prop_Arr_index: "i < length xs \<Longrightarrow> get_prop (Arr xs) (show_nat i) = Inr (xs ! i)"
  by (simp add: get_prop_def own_prop_Arr_index del: own_prop.simps)

lemma set_prop_Arr_index:
  "i \<le> length xs \<Longrightarrow>
   set_prop (Arr xs) (show_nat i) v = Inr (Arr (if i < length xs then xs[i := v] else xs @ [v]))"
  by (simp add: show_nat_not_proto filter_index [of i "Suc (length xs)"] del: upt_Suc)

section \<open>Reading and writing properties\<close>

lemma and_then_Inr [simp]: "and_then (Inr x) f = f x"
  by (simp add: and_then_def)

lemma and_then_Inl [simp]: "and_then (Inl e) f = Inl e"
  by (simp add: and_then_def)

lemma for_each_append: "for_each f (xs @ ys) s = and_then (for_each f xs s) (for_each f ys)"
proof (induction xs arbitrary: s)
  case Nil
  show ?case by simp
next
  case (Cons x xs)
  show ?case by (cases "f x s") (simp_all add: Cons.IH)
qed

lemma map_of_put_own: "map_of (put_own kvs key v) = (map_of kvs)(key \<mapsto> v)"
  by (induction kvs) auto

lemma put_own_fresh: "key \<notin> fst ` set kvs \<Longrightarrow> put_own kvs key v = kvs @ [(key, v)]"
  by (induction kvs) auto

lemma put_own_put_own: "put_own (put_own kvs key x) key y = put_own kvs key y"
  by (induction kvs) auto

lemma assign_fresh:
  "key \<notin> fst ` set kvs \<Longrightarrow> key \<noteq> ''__proto__'' \<Longrightarrow> assign kvs key v = Inr (kvs @ [(key, v)])"
  by (simp add: assign_def put_own_fresh)

lemma assign_own: "key \<in> fst ` set kvs \<Longrightarrow> assign kvs key v = Inr (put_own kvs key v)"
  by (auto simp add: assign_def map_of_eq_None_iff)

text \<open>
  A key that a plain object does not have is read as \<^verbatim>\<open>undefined\<close> or as a function
  of \<^verbatim>\<open>Object.prototype\<close>, unless it is \<^verbatim>\<open>__proto__\<close>.
\<close>

lemma get_prop_missing:
  "map_of kvs key = None \<Longrightarrow> key \<noteq> ''__proto__'' \<Longrightarrow>
   \<exists>old. get_prop (Obj kvs) key = Inr old \<and> \<not> typeof_object old"
  by (simp add: get_prop_def)

lemma get_prop_put_own: "get_prop (Obj (put_own kvs key v)) key = Inr v"
  by (simp add: get_prop_def map_of_put_own)

text \<open>
  A loop that assigns one value per entry to fresh keys appends the entries.
\<close>

lemma for_each_assign_fresh:
  assumes "distinct (map fst kvs)" "fst ` set kvs \<inter> fst ` set acc = {}"
    and "''__proto__'' \<notin> fst ` set kvs"
    and "\<And>key v. (key, v) \<in> set kvs \<Longrightarrow> f v = Inr (g v)"
  shows "for_each (\<lambda>(key, v) acc. and_then (f v) (assign acc key)) kvs acc
     = Inr (acc @ map (\<lambda>(key, v). (key, g v)) kvs)"
  using assms
proof (induction kvs arbitrary: acc)
  case Nil
  show ?case by simp
next
  case (Cons kv kvs)
  obtain k v where kv: "kv = (k, v)" by (cases kv)
  from Cons.prems have fresh: "k \<notin> fst ` set acc" and k: "k \<noteq> ''__proto__''"
    by (auto simp add: kv)
  from Cons.prems(4) [of k v] have fv: "f v = Inr (g v)" by (simp add: kv)
  have disj: "fst ` set kvs \<inter> fst ` set (acc @ [(k, g v)]) = {}"
    using Cons.prems(1,2) by (auto simp add: kv)
  have "for_each (\<lambda>(key, v) acc. and_then (f v) (assign acc key)) kvs (acc @ [(k, g v)])
      = Inr ((acc @ [(k, g v)]) @ map (\<lambda>(key, v). (key, g v)) kvs)"
    using Cons.prems(1,3,4) disj by (intro Cons.IH) (auto simp add: kv)
  then show ?case by (simp add: kv fv assign_fresh [OF fresh k])
qed

lemma for_each_collect:
  "(\<And>x. x \<in> set xs \<Longrightarrow> f x = Inr (g x)) \<Longrightarrow>
   for_each (\<lambda>x ys. and_then (f x) (\<lambda>y. Inr (ys @ [y]))) xs acc = Inr (acc @ map g xs)"
  by (induction xs arbitrary: acc) simp_all

lemma distinct_own_fields: "well_formed v \<Longrightarrow> distinct (map fst (own_fields v))"
  by (cases v) (simp_all add: distinct_index_keys)

lemma own_value_own_field:
  "well_formed obj \<Longrightarrow> (key, v) \<in> set (own_fields obj) \<Longrightarrow> own_value obj key = v"
  using map_of_is_SomeI [OF distinct_own_fields, of obj key v] by (simp add: own_value_def)

lemma wf_own_field: "well_formed obj \<Longrightarrow> (key, v) \<in> set (own_fields obj) \<Longrightarrow> well_formed v"
  by (cases obj) (auto simp add: list_all_iff dest: set_zip_rightD)

lemma nan_free_own_field: "nan_free obj \<Longrightarrow> (key, v) \<in> set (own_fields obj) \<Longrightarrow> nan_free v"
  by (cases obj) (auto simp add: list_all_iff dest: set_zip_rightD)

lemma split_dot_nonempty: "split_dot p \<noteq> []"
  by (induction p) auto

section \<open>Facts about isEqual and deepClone\<close>

text \<open>Without NaN, \<open>isEqual\<close> is reflexive.\<close>

lemma isEqual_refl: "well_formed x \<Longrightarrow> nan_free x \<Longrightarrow> isEqual x x"
proof (induction x rule: measure_induct_rule [where f = size])
  case (less x)
  show ?case
  proof (cases "typeof_object x \<and> \<not> nullish x")
    case False
    with less.prems show ?thesis by (subst isEqual.simps) (cases x; simp)
  next
    case True
    have "list_all (\<lambda>(key, v). key \<in> set (map fst (own_fields x)) \<and> isEqual v (own_value x key))
            (own_fields x)"
      unfolding list_all_iff
    proof (intro ballI, clarify)
      fix key v assume m: "(key, v) \<in> set (own_fields x)"
      then have "key \<in> set (map fst (own_fields x))" by force
      moreover have "isEqual v v"
        using less.IH [OF own_fields_size [OF m]] wf_own_field [OF less.prems(1) m]
          nan_free_own_field [OF less.prems(2) m] by blast
      moreover have "own_value x key = v" using less.prems(1) m by (rule own_value_own_field)
      ultimately show "key \<in> set (map fst (own_fields x)) \<and> isEqual v (own_value x key)"
        by simp
    qed
    with True show ?thesis by (subst isEqual.simps) simp
  qed
qed

text \<open>
  Key by key: two Mappings with the same keys in the same order and \<open>isEqual\<close>
  values are \<open>isEqual\<close>.
\<close>

lemma isEqual_fields:
  assumes d: "distinct (map fst kvs)"
    and all: "list_all2 (\<lambda>(k', x') (k, x). k' = k \<and> isEqual x' x) res kvs"
  shows "isEqual (Obj res) (Obj kvs)"
proof -
  from all have len: "length res = length kvs" by (rule list_all2_lengthD)
  have "list_all (\<lambda>(key, v). key \<in> set (map fst kvs) \<and> isEqual v (own_value (Obj kvs) key)) res"
    unfolding list_all_iff
  proof (intro ballI, clarify)
    fix key x' assume "(key, x') \<in> set res"
    then obtain i where i: "i < length res" and r: "res ! i = (key, x')"
      by (auto simp add: in_set_conv_nth)
    obtain k x where kx: "kvs ! i = (k, x)" by (cases "kvs ! i")
    from list_all2_nthD [OF all i] r kx have k: "k = key" and e: "isEqual x' x" by simp_all
    from i len kx k have m: "(key, x) \<in> set kvs" by (metis nth_mem)
    with d have "map_of kvs key = Some x" by (intro map_of_is_SomeI)
    then have "own_value (Obj kvs) key = x" by (simp add: own_value_def)
    with m e show "key \<in> set (map fst kvs) \<and> isEqual x' (own_value (Obj kvs) key)"
      by force
  qed
  with len show ?thesis by (subst isEqual.simps) simp
qed

text \<open>
  The clone of a value without the key \<^verbatim>\<open>__proto__\<close> is the same tree (in the source,
  a new object with that content).
\<close>

lemma deepClone_id: "well_formed x \<Longrightarrow> proto_free x \<Longrightarrow> deepClone x = Inr x"
proof (induction x rule: deepClone.induct)
  case (2 xs)
  have "for_each (\<lambda>item ys. and_then (deepClone item) (\<lambda>y. Inr (ys @ [y]))) xs []
      = Inr ([] @ map (\<lambda>x. x) xs)"
  proof (rule for_each_collect)
    fix x assume "x \<in> set xs"
    with 2 show "deepClone x = Inr x" by (simp add: list_all_iff)
  qed
  then show ?case by simp
next
  case (3 kvs)
  have "for_each (\<lambda>(key, v) cloned. and_then (deepClone v) (assign cloned key)) kvs []
      = Inr ([] @ map (\<lambda>(key, v). (key, v)) kvs)"
  proof (rule for_each_assign_fresh)
    from 3(2) show "distinct (map fst kvs)" by simp
    show "fst ` set kvs \<inter> fst ` set [] = {}" by simp
    from 3(3) show "''__proto__'' \<notin> fst ` set kvs" by (auto simp add: list_all_iff)
    fix key v assume m: "(key, v) \<in> set kvs"
    with 3(2,3) have "well_formed v" "proto_free v" by (auto simp add: list_all_iff)
    with 3(1) [OF m refl] show "deepClone v = Inr v" by simp
  qed
  then show ?case by simp
qed simp_all

section \<open>Facts about deepMerge\<close>

lemma reduce_objects_append:
  "reduce_objects (xs @ ys) merged = and_then (reduce_objects xs merged) (reduce_objects ys)"
proof (induction xs arbitrary: merged)
  case Nil
  show ?case by simp
next
  case (Cons x xs)
  show ?case
    by (cases "if truthy x \<and> typeof_object x then forEach_key (own_fields x) merged else Inr merged")
      (simp_all add: Cons.IH)
qed

lemma reduce_objects_skip:
  "\<not> (truthy v \<and> typeof_object v) \<or> own_fields v = [] \<Longrightarrow>
   reduce_objects (v # ys) = reduce_objects ys"
  by (rule ext) auto

text \<open>
  \<open>deepMerge\<close> of a date is the empty Mapping, and \<open>deepMerge\<close> of one Mapping
  rebuilds it key by key.
\<close>

lemma deepMerge_Date: "deepMerge [Date t] = Inr (Obj [])"
  by (simp add: deepMerge.simps)

lemma deepMerge_or_empty: "\<not> typeof_object old \<Longrightarrow> deepMerge [or_empty old, v] = deepMerge [v]"
  by (simp add: deepMerge.simps or_empty_def)

lemma forEach_key_fresh:
  assumes "distinct (map fst kvs)" "fst ` set kvs \<inter> fst ` set merged = {}" "plain_keys kvs"
    and "\<And>key sub. (key, Obj sub) \<in> set kvs \<Longrightarrow>
           \<exists>r. deepMerge [Obj sub] = Inr r \<and> isEqual r (Obj sub)"
    and "\<And>key x. (key, x) \<in> set kvs \<Longrightarrow> isEqual x x"
  shows "\<exists>res. forEach_key kvs merged = Inr (merged @ res)
     \<and> list_all2 (\<lambda>(k', x') (k, x). k' = k \<and> isEqual x' x) res kvs"
  using assms
proof (induction kvs arbitrary: merged)
  case Nil
  show ?case by simp
next
  case (Cons kv kvs)
  obtain k v where kv: "kv = (k, v)" by (cases kv)
  from Cons.prems(2) have fresh: "k \<notin> fst ` set merged" by (auto simp add: kv)
  from Cons.prems(3) have k: "k \<noteq> ''__proto__''" by (cases v) (simp_all add: kv)
  from fresh have none: "map_of merged k = None" by (simp add: map_of_eq_None_iff)
  from get_prop_missing [OF none k] obtain old where
    old: "get_prop (Obj merged) k = Inr old" and "\<not> typeof_object old" by blast
  then have skip: "deepMerge [or_empty old, v] = deepMerge [v]" by (intro deepMerge_or_empty)
  have "\<exists>x'. merge_entry k v merged = Inr (merged @ [(k, x')]) \<and> isEqual x' v"
  proof (cases v)
    case (Obj sub)
    from Cons.prems(4) [of k sub] obtain r where
      r: "deepMerge [Obj sub] = Inr r" and e: "isEqual r (Obj sub)"
      by (auto simp add: kv Obj)
    from skip have "merge_entry k v merged = Inr (merged @ [(k, r)])"
      by (simp add: merge_entry_def Obj old r assign_fresh [OF fresh k])
    with e show ?thesis by (auto simp add: Obj)
  next
    case (Date t)
    from skip have "merge_entry k v merged = Inr (merged @ [(k, Obj [])])"
      by (simp add: merge_entry_def Date old deepMerge_Date assign_fresh [OF fresh k])
    moreover have "isEqual (Obj []) (Date t)" by (subst isEqual.simps) simp
    ultimately show ?thesis by (auto simp add: Date)
  qed (use k Cons.prems(5) [of k v] fresh in
      \<open>auto simp add: kv merge_entry_def assign_fresh\<close>)
  then obtain x' where step: "merge_entry k v merged = Inr (merged @ [(k, x')])"
    and e: "isEqual x' v" by blast
  have disj: "fst ` set kvs \<inter> fst ` set (merged @ [(k, x')]) = {}"
    using Cons.prems(1,2) by (auto simp add: kv)
  have rest: "plain_keys kvs" using Cons.prems(3) by (cases v) (simp_all add: kv)
  have "\<exists>res. forEach_key kvs (merged @ [(k, x')]) = Inr ((merged @ [(k, x')]) @ res)
     \<and> list_all2 (\<lambda>(k', x') (k, x). k' = k \<and> isEqual x' x) res kvs"
    using Cons.prems(1,4,5) disj rest by (intro Cons.IH) (auto simp add: kv)
  then obtain res where
    f: "forEach_key kvs (merged @ [(k, x')]) = Inr ((merged @ [(k, x')]) @ res)" and
    a: "list_all2 (\<lambda>(k', x') (k, x). k' = k \<and> isEqual x' x) res kvs" by blast
  from step have "forEach_key (kv # kvs) merged = forEach_key kvs (merged @ [(k, x')])"
    by (simp add: kv merge_entry_def)
  with f have "forEach_key (kv # kvs) merged = Inr (merged @ ((k, x') # res))" by simp
  moreover from a e have "list_all2 (\<lambda>(k', x') (k, x). k' = k \<and> isEqual x' x) ((k, x') # res) (kv # kvs)"
    by (simp add: kv)
  ultimately show ?case by blast
qed

lemma isEqual_deepMerge_single:
  "well_formed (Obj kvs) \<Longrightarrow> nan_free (Obj kvs) \<Longrightarrow> plain_keys kvs \<Longrightarrow>
   \<exists>r. deepMerge [Obj kvs] = Inr r \<and> isEqual r (Obj kvs)"
proof (induction kvs rule: measure_induct_rule [where f = "\<lambda>kvs. size (Obj kvs)"])
  case (less kvs)
  have plain_sub: "\<And>key sub. (key, Obj sub) \<in> set kvs \<Longrightarrow> plain_keys sub"
  proof -
    fix key sub show "(key, Obj sub) \<in> set kvs \<Longrightarrow> plain_keys sub"
      using less.prems(3) by (induction kvs rule: plain_keys.induct) auto
  qed
  have "\<exists>res. forEach_key kvs [] = Inr ([] @ res)
     \<and> list_all2 (\<lambda>(k', x') (k, x). k' = k \<and> isEqual x' x) res kvs"
  proof (rule forEach_key_fresh)
    from less.prems(1) show "distinct (map fst kvs)" by simp
    show "fst ` set kvs \<inter> fst ` set [] = {}" by simp
    show "plain_keys kvs" by (rule less.prems(3))
  next
    fix key sub assume m: "(key, Obj sub) \<in> set kvs"
    then have o: "(key, Obj sub) \<in> set (own_fields (Obj kvs))" by simp
    from own_fields_size [OF o] have "size (Obj sub) < size (Obj kvs)" .
    moreover from wf_own_field [OF less.prems(1) o] have "well_formed (Obj sub)" .
    moreover from nan_free_own_field [OF less.prems(2) o] have "nan_free (Obj sub)" .
    ultimately show "\<exists>r. deepMerge [Obj sub] = Inr r \<and> isEqual r (Obj sub)"
      using plain_sub [OF m] by (intro less.IH)
  next
    fix key x assume "(key, x) \<in> set kvs"
    then have o: "(key, x) \<in> set (own_fields (Obj kvs))" by simp
    from wf_own_field [OF less.prems(1) o] nan_free_own_field [OF less.prems(2) o]
    show "isEqual x x" by (rule isEqual_refl)
  qed
  then obtain res where f: "forEach_key kvs [] = Inr res"
    and a: "list_all2 (\<lambda>(k', x') (k, x). k' = k \<and> isEqual x' x) res kvs" by auto
  from f have "deepMerge [Obj kvs] = Inr (Obj res)" by (simp add: deepMerge.simps)
  moreover from less.prems(1) a have "isEqual (Obj res) (Obj kvs)"
    by (intro isEqual_fields) simp_all
  ultimately show ?case by blast
qed

section \<open>Facts about setNestedValue\<close>

lemma assign_put_own:
  "key \<noteq> ''__proto__'' \<or> map_of kvs key \<noteq> None \<Longrightarrow> assign kvs key v = Inr (put_own kvs key v)"
  by (auto simp add: assign_def)

text \<open>
  The child that the loop of \<open>setNestedValue\<close> goes on with under \<open>key\<close>: the own
  value if that is an object, a new empty Mapping otherwise.
\<close>

definition child_or_empty :: "fields \<Rightarrow> string \<Rightarrow> jsval" where
  "child_or_empty cur key =
     (case map_of cur key of
        Some child \<Rightarrow> if truthy child \<and> typeof_object child then child else Obj []
      | None \<Rightarrow> Obj [])"

lemma set_prop_Obj:
  "set_prop (Obj kvs) key = (\<lambda>v. and_then (assign kvs key v) (\<lambda>kvs'. Inr (Obj kvs')))"
  by (rule ext) simp

lemma set_loop_Cons:
  assumes "map_of cur key \<noteq> None \<or> key \<noteq> ''__proto__''"
  shows "set_loop (key # keys) lastKey (Obj cur) v =
     and_then (set_loop keys lastKey (child_or_empty cur key) v)
       (\<lambda>c. Inr (Obj (put_own cur key c)))"
proof (cases "map_of cur key")
  case None
  with assms have k: "key \<noteq> ''__proto__''" by simp
  from get_prop_missing [OF None k] obtain old where
    g: "get_prop (Obj cur) key = Inr old" and old: "\<not> typeof_object old" by blast
  have a: "assign cur key (Obj []) = Inr (put_own cur key (Obj []))"
    using k by (intro assign_put_own) simp
  have b: "\<And>c. assign (put_own cur key (Obj [])) key c = Inr (put_own cur key c)"
    by (simp add: assign_put_own map_of_put_own put_own_put_own)
  show ?thesis
    by (simp add: g old a b get_prop_put_own child_or_empty_def None set_prop_Obj)
next
  case (Some child)
  then have g: "get_prop (Obj cur) key = Inr child" by (simp add: get_prop_def)
  have a: "\<And>c. assign cur key c = Inr (put_own cur key c)"
    using Some by (intro assign_put_own) simp
  have b: "\<And>c. assign (put_own cur key (Obj [])) key c = Inr (put_own cur key c)"
    by (simp add: assign_put_own map_of_put_own put_own_put_own)
  show ?thesis
  proof (cases "truthy child \<and> typeof_object child")
    case True
    then show ?thesis by (simp add: g a child_or_empty_def Some set_prop_Obj)
  next
    case False
    then have "set_loop (key # keys) lastKey (Obj cur) v =
        and_then (set_loop keys lastKey (Obj []) v) (\<lambda>c. Inr (Obj (put_own cur key c)))"
      by (auto simp add: g a b get_prop_put_own set_prop_Obj)
    with False show ?thesis by (auto simp add: child_or_empty_def Some)
  qed
qed

lemma set_loop_Cons_Arr:
  assumes i: "i < length xs"
  shows "set_loop (show_nat i # keys) lastKey (Arr xs) v =
     and_then (set_loop keys lastKey (next_node (xs ! i)) v) (\<lambda>c. Inr (Arr (xs[i := c])))"
proof -
  have s: "set_prop (Arr xs) (show_nat i) = (\<lambda>c. Inr (Arr (xs[i := c])))"
    using i by (intro ext) (simp add: set_prop_Arr_index del: set_prop.simps)
  from i have i': "i < length (xs[i := Obj []])" by simp
  have s': "set_prop (Arr (xs[i := Obj []])) (show_nat i) = (\<lambda>c. Inr (Arr (xs[i := c])))"
    using i by (intro ext) (simp add: set_prop_Arr_index del: set_prop.simps)
  show ?thesis
    using i
    by (simp add: get_prop_Arr_index [OF i] get_prop_Arr_index [OF i'] s s' next_node_def
        del: set_prop.simps)
qed

lemma set_prop_object:
  "set_prop current key v = Inr r \<Longrightarrow> truthy current \<and> typeof_object current \<Longrightarrow>
   truthy r \<and> typeof_object r"
  by (cases current) (auto simp add: and_then_def split: sum.splits list.splits if_splits)

lemma set_loop_object:
  "set_loop keys lastKey current v = Inr r \<Longrightarrow> truthy current \<and> typeof_object current \<Longrightarrow>
   truthy r \<and> typeof_object r"
proof (cases keys)
  case Nil
  assume "set_loop keys lastKey current v = Inr r" "truthy current \<and> typeof_object current"
  with Nil show ?thesis by (auto dest: set_prop_object)
next
  case (Cons key rest)
  assume s: "set_loop keys lastKey current v = Inr r"
    and t: "truthy current \<and> typeof_object current"
  from s obtain old current' c where
    1: "(if \<not> truthy old \<or> \<not> typeof_object old then set_prop current key (Obj [])
         else Inr current) = Inr current'" and
    2: "set_prop current' key c = Inr r"
    by (auto simp add: Cons and_then_def split: sum.splits)
  from 1 t have "truthy current' \<and> typeof_object current'"
    by (auto split: if_splits dest: set_prop_object)
  with 2 show ?thesis by (rule set_prop_object)
qed

lemma next_node_object: "truthy (next_node old) \<and> typeof_object (next_node old)"
  by (simp add: next_node_def)

text \<open>What \<open>setNestedValue\<close> has set, \<open>getNestedValue\<close> reads.\<close>

lemma set_loop_get_loop:
  "settable_walk keys lastKey current \<Longrightarrow> truthy v \<Longrightarrow>
   \<exists>r. set_loop keys lastKey current v = Inr r
       \<and> get_loop (keys @ [lastKey]) r d = Inr v"
proof (induction keys arbitrary: current)
  case Nil
  from Nil(2) have v: "v \<noteq> Undefined" by auto
  show ?case
  proof (cases current)
    case (Obj kvs)
    with Nil(1) have "assign kvs lastKey v = Inr (put_own kvs lastKey v)"
      by (intro assign_put_own) simp
    with v Nil(2) show ?thesis by (simp add: Obj get_prop_put_own)
  next
    case (Arr xs)
    with Nil(1) have "lastKey \<in> show_nat ` {0..<Suc (length xs)}" by (simp del: upt_Suc)
    then obtain i where "i < Suc (length xs)" and k: "lastKey = show_nat i" by (rule imageE) simp
    then have i: "i \<le> length xs" by simp
    define ys where "ys = (if i < length xs then xs[i := v] else xs @ [v])"
    from i have "i < length ys" and "ys ! i = v" by (simp_all add: ys_def nth_append)
    with get_prop_Arr_index [of i ys] have r: "get_prop (Arr ys) (show_nat i) = Inr v" by simp
    have s: "set_prop (Arr xs) (show_nat i) v = Inr (Arr ys)"
      unfolding ys_def by (rule set_prop_Arr_index [OF i])
    have "set_loop [] lastKey current v = Inr (Arr ys)"
      by (simp add: Arr k s del: set_prop.simps)
    moreover have "get_loop ([] @ [lastKey]) (Arr ys) d = Inr v"
      using v Nil(2) by (simp add: k r)
    ultimately show ?thesis by blast
  qed (use Nil(1) in simp_all)
next
  case (Cons key keys)
  show ?case
  proof (cases current)
    case (Obj cur)
    from Cons.prems(1) have own: "map_of cur key \<noteq> None \<or> key \<noteq> ''__proto__''"
      by (auto simp add: Obj split: option.splits)
    from Cons.prems(1) have "settable_walk keys lastKey (child_or_empty cur key)"
      by (auto simp add: Obj child_or_empty_def next_node_def split: option.splits)
    from Cons.IH [OF this Cons.prems(2)] obtain c where
      s: "set_loop keys lastKey (child_or_empty cur key) v = Inr c" and
      g: "get_loop (keys @ [lastKey]) c d = Inr v" by blast
    have "truthy (child_or_empty cur key) \<and> typeof_object (child_or_empty cur key)"
      by (simp add: child_or_empty_def split: option.splits)
    with s have c: "truthy c \<and> typeof_object c" by (rule set_loop_object)
    then have "c \<noteq> Undefined" by auto
    have "set_loop (key # keys) lastKey current v = Inr (Obj (put_own cur key c))"
      by (simp add: Obj set_loop_Cons [OF own] s del: set_loop.simps)
    moreover have "get_loop ((key # keys) @ [lastKey]) (Obj (put_own cur key c)) d = Inr v"
      using g c \<open>c \<noteq> Undefined\<close> by (simp add: get_prop_put_own)
    ultimately show ?thesis by blast
  next
    case (Arr xs)
    with Cons.prems(1) obtain i rest where
      f: "filter (\<lambda>i. show_nat i = key) [0..<length xs] = i # rest" and
      w: "settable_walk keys lastKey (next_node (xs ! i))"
      by (auto split: list.splits)
    from f have "i \<in> set (filter (\<lambda>i. show_nat i = key) [0..<length xs])" by simp
    then have i: "i < length xs" and k: "key = show_nat i" by auto
    from Cons.IH [OF w Cons.prems(2)] obtain c where
      s: "set_loop keys lastKey (next_node (xs ! i)) v = Inr c" and
      g: "get_loop (keys @ [lastKey]) c d = Inr v" by blast
    from s next_node_object have c: "truthy c \<and> typeof_object c" by (rule set_loop_object)
    then have "c \<noteq> Undefined" by auto
    have "set_loop (key # keys) lastKey current v = Inr (Arr (xs[i := c]))"
      by (simp add: Arr k set_loop_Cons_Arr [OF i] s del: set_loop.simps)
    moreover from i have "get_prop (Arr (xs[i := c])) (show_nat i) = Inr c"
      using get_prop_Arr_index [of i "xs[i := c]"] by simp
    then have "get_loop ((key # keys) @ [lastKey]) (Arr (xs[i := c])) d = Inr v"
      using g c \<open>c \<noteq> Undefined\<close> by (simp add: k)
    ultimately show ?thesis by blast
  qed (use Cons.prems(1) in simp_all)
qed

text \<open>
  \<open>setNestedValue\<close> on a path that is given by its components, and the loop of
  \<open>unflattenObject\<close> over such paths.
\<close>

definition set_path :: "string list \<Rightarrow> jsval \<Rightarrow> jsval \<Rightarrow> error + jsval" where
  "set_path p current v = set_loop (butlast p) (last p) current v"

definition set_all :: "(string list \<times> jsval) list \<Rightarrow> jsval \<Rightarrow> error + jsval" where
  "set_all es r = for_each (\<lambda>(p, v) r. set_path p r v) es r"

lemma set_path_object:
  "set_path p current v = Inr r \<Longrightarrow> truthy current \<and> typeof_object current \<Longrightarrow>
   truthy r \<and> typeof_object r"
  unfolding set_path_def by (rule set_loop_object)

lemma set_path_single:
  "key \<noteq> ''__proto__'' \<Longrightarrow> key \<notin> fst ` set cur \<Longrightarrow>
   set_path [key] (Obj cur) v = Inr (Obj (cur @ [(key, v)]))"
  by (simp add: set_path_def assign_fresh)

lemma set_path_Cons:
  "p \<noteq> [] \<Longrightarrow> map_of cur key \<noteq> None \<or> key \<noteq> ''__proto__'' \<Longrightarrow>
   set_path (key # p) (Obj cur) v =
     and_then (set_path p (child_or_empty cur key) v) (\<lambda>c. Inr (Obj (put_own cur key c)))"
  by (simp add: set_path_def set_loop_Cons del: set_loop.simps)

lemma set_all_Nil: "set_all [] r = Inr r"
  by (simp add: set_all_def)

lemma set_all_Cons: "set_all ((p, v) # es) r = and_then (set_path p r v) (set_all es)"
proof -
  have "set_all es = for_each (\<lambda>(p, v) r. set_path p r v) es"
    by (rule ext) (simp add: set_all_def)
  then show ?thesis by (simp add: set_all_def)
qed

lemma set_all_append: "set_all (es @ es') r = and_then (set_all es r) (set_all es')"
proof -
  have "set_all es' = for_each (\<lambda>(p, v) r. set_path p r v) es'"
    by (rule ext) (simp add: set_all_def)
  then show ?thesis by (simp add: set_all_def for_each_append)
qed

lemma child_or_empty_object:
  "truthy (child_or_empty cur key) \<and> typeof_object (child_or_empty cur key)"
  by (simp add: child_or_empty_def split: option.splits)

lemma child_or_empty_put_own:
  "truthy c \<and> typeof_object c \<Longrightarrow> child_or_empty (put_own cur key c) key = c"
  by (simp add: child_or_empty_def map_of_put_own)

lemma child_or_empty_fresh: "key \<notin> fst ` set cur \<Longrightarrow> child_or_empty cur key = Obj []"
  by (simp add: child_or_empty_def map_of_eq_None_iff [THEN iffD2])

text \<open>
  Setting several paths below one key amounts to setting them in the child under
  that key.
\<close>

lemma set_all_under_key:
  "es \<noteq> [] \<Longrightarrow> \<forall>(p, x) \<in> set es. p \<noteq> [] \<Longrightarrow>
   map_of cur key \<noteq> None \<or> key \<noteq> ''__proto__'' \<Longrightarrow>
   set_all (map (\<lambda>(p, x). (key # p, x)) es) (Obj cur) =
     and_then (set_all es (child_or_empty cur key)) (\<lambda>c. Inr (Obj (put_own cur key c)))"
proof (induction es arbitrary: cur)
  case Nil
  then show ?case by simp
next
  case (Cons px es)
  obtain p x where px: "px = (p, x)" by (cases px)
  from Cons.prems(2) have p: "p \<noteq> []" by (simp add: px)
  note first = set_path_Cons [OF p Cons.prems(3), of x]
  show ?case
  proof (cases "set_path p (child_or_empty cur key) x")
    case (Inl e)
    then show ?thesis by (simp add: px set_all_Cons first)
  next
    case (Inr c)
    note c = set_path_object [OF Inr child_or_empty_object]
    show ?thesis
    proof (cases "es = []")
      case True
      with Inr show ?thesis by (simp add: px set_all_Cons first set_all_Nil)
    next
      case False
      from Cons.prems(2) have "\<forall>(p, x) \<in> set es. p \<noteq> []" by simp
      from Cons.IH [OF False this, of "put_own cur key c"]
      have "set_all (map (\<lambda>(p, x). (key # p, x)) es) (Obj (put_own cur key c)) =
          and_then (set_all es c) (\<lambda>c'. Inr (Obj (put_own cur key c')))"
        by (simp add: child_or_empty_put_own [OF c] put_own_put_own map_of_put_own)
      with Inr show ?thesis by (simp add: px set_all_Cons first)
    qed
  qed
qed

section \<open>Facts about flattenObject and unflattenObject\<close>

text \<open>
  The entries \<open>flattenObject\<close> computes, with the key construction of the source
  (\<^verbatim>\<open>prefix ? `${prefix}.${key}` : key\<close>) and its descent into every object that
  is neither null nor an array.
\<close>

definition join_prefix :: "string \<Rightarrow> string \<Rightarrow> string" where
  "join_prefix prefix key = (if prefix \<noteq> [] then prefix @ ''.'' @ key else key)"

fun flat_entries :: "string \<Rightarrow> fields \<Rightarrow> fields" where
  "flat_entries prefix [] = []"
| "flat_entries prefix ((key, Obj sub) # kvs) =
     flat_entries (join_prefix prefix key) sub @ flat_entries prefix kvs"
| "flat_entries prefix ((key, Date t) # kvs) = flat_entries prefix kvs"
| "flat_entries prefix ((key, v) # kvs) = (join_prefix prefix key, v) # flat_entries prefix kvs"

lemma object_assign_fresh:
  assumes "distinct (map fst (acc @ es))" "''__proto__'' \<notin> fst ` set es"
  shows "object_assign acc (Obj es) = Inr (acc @ es)"
proof -
  from assms(1) have "distinct (map fst es)" "fst ` set es \<inter> fst ` set acc = {}" by auto
  from for_each_assign_fresh [OF this assms(2), of Inr "\<lambda>v. v"] show ?thesis
    by (simp add: object_assign_def)
qed

lemma flattenObject_Date: "flattenObject (Date t) prefix = Inr (Obj [])"
  by (simp add: flattenObject.simps)

lemma flatten_fold:
  assumes sub: "\<And>key sub prefix'. (key, Obj sub) \<in> set kvs \<Longrightarrow>
      distinct (map fst (flat_entries prefix' sub)) \<Longrightarrow>
      ''__proto__'' \<notin> fst ` set (flat_entries prefix' sub) \<Longrightarrow>
      flattenObject (Obj sub) prefix' = Inr (Obj (flat_entries prefix' sub))"
  shows "distinct (map fst (acc @ flat_entries prefix kvs)) \<Longrightarrow>
    ''__proto__'' \<notin> fst ` set (flat_entries prefix kvs) \<Longrightarrow>
    for_each (\<lambda>(key, v) acc.
            let newKey = (if prefix \<noteq> [] then prefix @ ''.'' @ key else key)
            in if typeof_object v \<and> v \<noteq> Null \<and> \<not> isArray v
               then and_then (flattenObject v newKey) (object_assign acc)
               else assign acc newKey v) kvs acc
      = Inr (acc @ flat_entries prefix kvs)"
  using sub
proof (induction kvs arbitrary: acc)
  case Nil
  show ?case by simp
next
  case (Cons kv kvs)
  obtain key v where kv: "kv = (key, v)" by (cases kv)
  let ?step = "\<lambda>(key, v) acc.
            let newKey = (if prefix \<noteq> [] then prefix @ ''.'' @ key else key)
            in if typeof_object v \<and> v \<noteq> Null \<and> \<not> isArray v
               then and_then (flattenObject v newKey) (object_assign acc)
               else assign acc newKey v"
  let ?first = "flat_entries prefix [(key, v)]"
  have parts': "flat_entries prefix ((key, v) # kvs) = ?first @ flat_entries prefix kvs"
    by (cases v) simp_all
  then have parts: "flat_entries prefix (kv # kvs) = ?first @ flat_entries prefix kvs"
    by (simp only: kv)
  have one: "?step (key, v) acc = Inr (acc @ ?first)"
  proof (cases v)
    case (Obj sub)
    from Cons.prems(1) have d: "distinct (map fst (acc @ flat_entries (join_prefix prefix key) sub))"
      by (auto simp add: kv Obj)
    then have d': "distinct (map fst (flat_entries (join_prefix prefix key) sub))" by simp
    from Cons.prems(2) have n: "''__proto__'' \<notin> fst ` set (flat_entries (join_prefix prefix key) sub)"
      by (auto simp add: kv Obj)
    from Cons.prems(3) [of key sub "join_prefix prefix key"] d' n
    have eq: "flattenObject (Obj sub) (join_prefix prefix key)
        = Inr (Obj (flat_entries (join_prefix prefix key) sub))"
      by (simp add: kv Obj)
    have "?step (key, v) acc
        = and_then (flattenObject (Obj sub) (join_prefix prefix key)) (object_assign acc)"
      by (simp add: Obj join_prefix_def)
    also have "\<dots> = Inr (acc @ flat_entries (join_prefix prefix key) sub)"
      unfolding eq by (simp add: object_assign_fresh [OF d n])
    finally show ?thesis by (simp add: Obj)
  next
    case (Date t)
    show ?thesis by (simp add: Date flattenObject_Date object_assign_def)
  qed (use Cons.prems(1,2) in \<open>auto simp add: kv assign_fresh join_prefix_def\<close>)
  have "for_each ?step kvs (acc @ ?first) = Inr ((acc @ ?first) @ flat_entries prefix kvs)"
  proof (rule Cons.IH)
    from Cons.prems(1) show "distinct (map fst ((acc @ ?first) @ flat_entries prefix kvs))"
      by (simp add: parts)
    from Cons.prems(2) show "''__proto__'' \<notin> fst ` set (flat_entries prefix kvs)"
      by (auto simp add: parts)
    fix key' sub prefix'
    assume "(key', Obj sub) \<in> set kvs" "distinct (map fst (flat_entries prefix' sub))"
      "''__proto__'' \<notin> fst ` set (flat_entries prefix' sub)"
    with Cons.prems(3) [of key' sub prefix']
    show "flattenObject (Obj sub) prefix' = Inr (Obj (flat_entries prefix' sub))" by simp
  qed
  with one show ?case by (simp add: kv parts' del: flat_entries.simps)
qed

lemma flattenObject_flat_entries:
  "distinct (map fst (flat_entries prefix kvs)) \<Longrightarrow>
   ''__proto__'' \<notin> fst ` set (flat_entries prefix kvs) \<Longrightarrow>
   flattenObject (Obj kvs) prefix = Inr (Obj (flat_entries prefix kvs))"
proof (induction kvs arbitrary: prefix rule: measure_induct_rule [where f = "\<lambda>kvs. size (Obj kvs)"])
  case (less kvs)
  have "for_each (\<lambda>(key, v) acc.
            let newKey = (if prefix \<noteq> [] then prefix @ ''.'' @ key else key)
            in if typeof_object v \<and> v \<noteq> Null \<and> \<not> isArray v
               then and_then (flattenObject v newKey) (object_assign acc)
               else assign acc newKey v) kvs []
      = Inr ([] @ flat_entries prefix kvs)"
  proof (rule flatten_fold)
    from less.prems show "distinct (map fst ([] @ flat_entries prefix kvs))" by simp
    from less.prems show "''__proto__'' \<notin> fst ` set (flat_entries prefix kvs)" by simp
    fix key sub prefix'
    assume m: "(key, Obj sub) \<in> set kvs" and d: "distinct (map fst (flat_entries prefix' sub))"
      and n: "''__proto__'' \<notin> fst ` set (flat_entries prefix' sub)"
    from m have "(key, Obj sub) \<in> set (own_fields (Obj kvs))" by simp
    from own_fields_size [OF this] have "size (Obj sub) < size (Obj kvs)" .
    from less.IH [OF this d n]
    show "flattenObject (Obj sub) prefix' = Inr (Obj (flat_entries prefix' sub))" .
  qed
  then show ?case by (subst flattenObject.simps) simp
qed

lemma leaf_paths_nonempty_path: "(p, x) \<in> set (leaf_paths kvs) \<Longrightarrow> p \<noteq> []"
  by (induction kvs rule: leaf_paths.induct) auto

lemma dot_join_Cons: "p \<noteq> [] \<Longrightarrow> dot_join (key # p) = key @ ''.'' @ dot_join p"
  by (cases p) simp_all

lemma flat_entries_prefixed:
  "prefix \<noteq> [] \<Longrightarrow> date_free kvs \<Longrightarrow>
   flat_entries prefix kvs = map (\<lambda>(p, x). (prefix @ ''.'' @ dot_join p, x)) (leaf_paths kvs)"
proof (induction prefix kvs rule: flat_entries.induct)
  case (2 prefix key sub kvs)
  have j: "join_prefix prefix key \<noteq> []" using 2(3) by (simp add: join_prefix_def)
  have "flat_entries (join_prefix prefix key) sub
      = map (\<lambda>(p, x). (join_prefix prefix key @ ''.'' @ dot_join p, x)) (leaf_paths sub)"
    using 2 j by simp
  also have "\<dots> = map (\<lambda>(p, x). (prefix @ ''.'' @ dot_join p, x))
                     (map (\<lambda>(p, x). (key # p, x)) (leaf_paths sub))"
    using 2(3) by (auto simp add: join_prefix_def dot_join_Cons dest: leaf_paths_nonempty_path)
  finally show ?case using 2 by simp
qed (simp_all add: join_prefix_def)

lemma flat_entries_top:
  "date_free kvs \<Longrightarrow> root_branch_keys_nonempty kvs \<Longrightarrow> flat_entries [] kvs = leaf_entries kvs"
proof (induction kvs rule: leaf_paths.induct)
  case (2 key sub kvs)
  then have "flat_entries key sub = map (\<lambda>(p, x). (key @ ''.'' @ dot_join p, x)) (leaf_paths sub)"
    by (intro flat_entries_prefixed) (simp_all add: root_branch_keys_nonempty_def)
  also have "\<dots> = map (\<lambda>(p, x). (dot_join p, x)) (map (\<lambda>(p, x). (key # p, x)) (leaf_paths sub))"
    by (auto simp add: dot_join_Cons dest: leaf_paths_nonempty_path)
  finally show ?case using 2
    by (simp add: leaf_entries_def join_prefix_def root_branch_keys_nonempty_def)
qed (simp_all add: leaf_entries_def join_prefix_def root_branch_keys_nonempty_def)

text \<open>\<open>flattenObject\<close> computes the entries of the specification.\<close>

lemma flattenObject_eq_leaf_entries:
  "date_free kvs \<Longrightarrow> root_branch_keys_nonempty kvs \<Longrightarrow>
   distinct (map fst (leaf_entries kvs)) \<Longrightarrow> ''__proto__'' \<notin> fst ` set (leaf_entries kvs) \<Longrightarrow>
   flattenObject (Obj kvs) [] = Inr (Obj (leaf_entries kvs))"
  using flattenObject_flat_entries [of "[]" kvs] by (simp add: flat_entries_top)

lemma roundtrip_safe_date_free: "roundtrip_safe kvs \<Longrightarrow> date_free kvs"
  by (induction kvs rule: roundtrip_safe.induct) simp_all

lemma split_dot_plain: "CHR ''.'' \<notin> set k \<Longrightarrow> split_dot k = [k]"
  by (induction k) auto

lemma split_dot_append:
  "CHR ''.'' \<notin> set k \<Longrightarrow> split_dot (k @ CHR ''.'' # rest) = k # split_dot rest"
  by (induction k) auto

lemma split_dot_join:
  "p \<noteq> [] \<Longrightarrow> \<forall>k \<in> set p. CHR ''.'' \<notin> set k \<Longrightarrow> split_dot (dot_join p) = p"
proof (induction p rule: dot_join.induct)
  case (3 k k' ks)
  then have "split_dot (dot_join (k' # ks)) = k' # ks" by simp
  with 3(3) show ?case by (simp add: split_dot_append del: split_dot.simps)
qed (simp_all add: split_dot_plain)

lemma leaf_paths_dot_free:
  "roundtrip_safe kvs \<Longrightarrow> (p, x) \<in> set (leaf_paths kvs) \<Longrightarrow> \<forall>k \<in> set p. CHR ''.'' \<notin> set k"
  by (induction kvs arbitrary: p rule: roundtrip_safe.induct) auto

lemma leaf_paths_hd: "(p, x) \<in> set (leaf_paths kvs) \<Longrightarrow> hd p \<in> fst ` set kvs"
  by (induction kvs rule: leaf_paths.induct) force+

lemma leaf_head_fresh: "key \<notin> fst ` set kvs \<Longrightarrow> [key] \<notin> fst ` set (leaf_paths kvs)"
proof
  assume fresh: "key \<notin> fst ` set kvs" and "[key] \<in> fst ` set (leaf_paths kvs)"
  then obtain x where "([key], x) \<in> set (leaf_paths kvs)" by auto
  from leaf_paths_hd [OF this] fresh show False by simp
qed

lemma distinct_leaf_paths:
  "well_formed (Obj kvs) \<Longrightarrow> distinct (map fst (leaf_paths kvs))"
proof (induction kvs rule: leaf_paths.induct)
  case (2 key sub kvs)
  define A where "A = map fst (leaf_paths sub)"
  define B where "B = map fst (leaf_paths kvs)"
  have e: "map fst (leaf_paths ((key, Obj sub) # kvs)) = map ((#) key) A @ B"
    by (simp add: A_def B_def case_prod_beta comp_def)
  from 2 have "distinct A" by (simp add: A_def)
  then have dA: "distinct (map ((#) key) A)"
    by (intro distinct_map [THEN iffD2] conjI) (simp_all add: inj_on_def)
  from 2 have dB: "distinct B" by (simp add: B_def)
  have "\<And>p. p \<in> set B \<Longrightarrow> hd p \<noteq> key"
    using 2(3) leaf_paths_hd unfolding B_def by fastforce
  then have disj: "set (map ((#) key) A) \<inter> set B = {}" by fastforce
  show ?case unfolding e distinct_append using dA dB disj by blast
qed (simp_all add: leaf_head_fresh)

lemma distinct_leaf_entries:
  assumes "roundtrip_safe kvs" "well_formed (Obj kvs)"
  shows "distinct (map fst (leaf_entries kvs))"
proof -
  have e: "map fst (leaf_entries kvs) = map dot_join (map fst (leaf_paths kvs))"
    by (simp add: leaf_entries_def case_prod_beta)
  have "inj_on dot_join (set (map fst (leaf_paths kvs)))"
  proof (rule inj_on_inverseI [where g = split_dot])
    fix p assume "p \<in> set (map fst (leaf_paths kvs))"
    then obtain x where m: "(p, x) \<in> set (leaf_paths kvs)" by auto
    from leaf_paths_nonempty_path [OF m] leaf_paths_dot_free [OF assms(1) m]
    show "split_dot (dot_join p) = p" by (rule split_dot_join)
  qed
  with distinct_leaf_paths [OF assms(2)]
  have "distinct (map dot_join (map fst (leaf_paths kvs)))"
    by (simp only: distinct_map simp_thms)
  then show ?thesis by (simp only: e)
qed

lemma leaf_key_not_proto:
  "roundtrip_safe kvs \<Longrightarrow> ([key], x) \<in> set (leaf_paths kvs) \<Longrightarrow> key \<noteq> ''__proto__''"
  by (induction kvs rule: roundtrip_safe.induct) (auto dest: leaf_paths_nonempty_path)

lemma leaf_entries_not_proto:
  assumes "roundtrip_safe kvs"
  shows "''__proto__'' \<notin> fst ` set (leaf_entries kvs)"
proof
  assume "''__proto__'' \<in> fst ` set (leaf_entries kvs)"
  then obtain p x where m: "(p, x) \<in> set (leaf_paths kvs)" and j: "dot_join p = ''__proto__''"
    by (auto simp add: leaf_entries_def)
  from leaf_paths_nonempty_path [OF m] leaf_paths_dot_free [OF assms m]
  have "split_dot (dot_join p) = p" by (rule split_dot_join)
  moreover have "split_dot ''__proto__'' = [''__proto__'']" by (rule split_dot_plain) simp
  ultimately have "p = [''__proto__'']" by (simp add: j)
  with m leaf_key_not_proto [OF assms] show False by blast
qed

lemma leaf_paths_nonempty: "roundtrip_safe kvs \<Longrightarrow> kvs \<noteq> [] \<Longrightarrow> leaf_paths kvs \<noteq> []"
  by (induction kvs rule: roundtrip_safe.induct) simp_all

text \<open>Setting the leaves of a Mapping one after the other rebuilds the Mapping.\<close>

lemma set_all_leaf_paths:
  "roundtrip_safe kvs \<Longrightarrow> well_formed (Obj kvs) \<Longrightarrow> fst ` set kvs \<inter> fst ` set pre = {} \<Longrightarrow>
   set_all (leaf_paths kvs) (Obj pre) = Inr (Obj (pre @ kvs))"
proof (induction kvs arbitrary: pre rule: measure_induct_rule [where f = "\<lambda>kvs. size (Obj kvs)"])
  case (less kvs)
  show ?case
  proof (cases kvs)
    case Nil
    then show ?thesis by (simp add: set_all_Nil)
  next
    case (Cons kv rest)
    obtain key v where kv: "kv = (key, v)" by (cases kv)
    from less.prems(3) have fresh: "key \<notin> fst ` set pre" by (auto simp add: Cons kv)
    from less.prems(1) have safe_rest: "roundtrip_safe rest"
      by (cases v) (simp_all add: Cons kv)
    from less.prems(2) have wf_rest: "well_formed (Obj rest)" and key_rest: "key \<notin> fst ` set rest"
      by (simp_all add: Cons kv)
    have disj: "fst ` set rest \<inter> fst ` set (pre @ [(key, v)]) = {}"
      using less.prems(3) key_rest by (auto simp add: Cons kv)
    have rest: "set_all (leaf_paths rest) (Obj (pre @ [(key, v)]))
        = Inr (Obj ((pre @ [(key, v)]) @ rest))"
      by (rule less.IH [OF _ safe_rest wf_rest disj]) (simp add: Cons)
    have first: "set_all (leaf_paths [(key, v)]) (Obj pre) = Inr (Obj (pre @ [(key, v)]))"
    proof (cases v)
      case (Obj sub)
      from less.prems(1) have safe_sub: "roundtrip_safe sub" and ne: "sub \<noteq> []"
        and k: "key \<noteq> ''__proto__''"
        by (simp_all add: Cons kv Obj)
      from less.prems(2) have wf_sub: "well_formed (Obj sub)"
        by (simp add: Cons kv Obj)
      have sub: "set_all (leaf_paths sub) (Obj []) = Inr (Obj ([] @ sub))"
        by (rule less.IH [OF _ safe_sub wf_sub]) (simp_all add: Cons kv Obj)
      have "set_all (map (\<lambda>(p, x). (key # p, x)) (leaf_paths sub)) (Obj pre) =
          and_then (set_all (leaf_paths sub) (child_or_empty pre key))
            (\<lambda>c. Inr (Obj (put_own pre key c)))"
        by (rule set_all_under_key [OF leaf_paths_nonempty [OF safe_sub ne]])
          (use k in \<open>auto dest: leaf_paths_nonempty_path\<close>)
      with sub fresh show ?thesis
        by (simp add: Obj child_or_empty_fresh put_own_fresh)
    next
      case (Date t)
      with less.prems(1) show ?thesis by (simp add: Cons kv)
    qed (use fresh less.prems(1) in
        \<open>simp_all add: Cons kv set_all_Cons set_all_Nil set_path_single\<close>)
    have "leaf_paths kvs = leaf_paths [(key, v)] @ leaf_paths rest"
      by (cases v) (simp_all add: Cons kv)
    with first rest show ?thesis
      by (simp add: set_all_append Cons kv)
  qed
qed

lemma setNestedValue_dot_join:
  "truthy r \<Longrightarrow> split_dot (dot_join p) = p \<Longrightarrow>
   setNestedValue r (Str (dot_join p)) v = set_path p r v"
  by (simp add: setNestedValue_def set_path_def)

lemma unflatten_fold:
  "\<forall>(p, x) \<in> set ps. split_dot (dot_join p) = p \<Longrightarrow> truthy r \<and> typeof_object r \<Longrightarrow>
   for_each (\<lambda>(key, v) result. setNestedValue result (Str key) v)
     (map (\<lambda>(p, x). (dot_join p, x)) ps) r
   = set_all ps r"
proof (induction ps arbitrary: r)
  case Nil
  show ?case by (simp add: set_all_Nil)
next
  case (Cons px ps)
  obtain p x where px: "px = (p, x)" by (cases px)
  from Cons.prems(1) have sp: "split_dot (dot_join p) = p"
    and rest: "\<forall>(p, x) \<in> set ps. split_dot (dot_join p) = p"
    by (simp_all add: px)
  from Cons.prems(2) have t: "truthy r" by simp
  show ?case
  proof (cases "set_path p r x")
    case (Inl e)
    then show ?thesis
      by (simp add: px setNestedValue_dot_join [OF t sp] set_all_Cons)
  next
    case (Inr r')
    from set_path_object [OF Inr Cons.prems(2)] have "truthy r' \<and> typeof_object r'" .
    from Cons.IH [OF rest this] Inr show ?thesis
      by (simp add: px setNestedValue_dot_join [OF t sp] set_all_Cons)
  qed
qed

text \<open>The round trip gives the Mapping back.\<close>

lemma unflatten_flatten:
  assumes safe: "roundtrip_safe kvs" and root: "root_branch_keys_nonempty kvs"
    and wf: "well_formed (Obj kvs)"
  shows "and_then (flattenObject (Obj kvs) []) unflattenObject = Inr (Obj kvs)"
proof -
  have flat: "flattenObject (Obj kvs) [] = Inr (Obj (leaf_entries kvs))"
    using roundtrip_safe_date_free [OF safe] root distinct_leaf_entries [OF safe wf]
      leaf_entries_not_proto [OF safe]
    by (rule flattenObject_eq_leaf_entries)
  have good: "\<forall>(p, x) \<in> set (leaf_paths kvs). split_dot (dot_join p) = p"
    using leaf_paths_nonempty_path leaf_paths_dot_free [OF safe]
    by (auto intro!: split_dot_join)
  have "unflattenObject (Obj (leaf_entries kvs))
      = for_each (\<lambda>(key, v) result. setNestedValue result (Str key) v)
         (map (\<lambda>(p, x). (dot_join p, x)) (leaf_paths kvs)) (Obj [])"
    by (simp add: unflattenObject_def leaf_entries_def)
  also have "\<dots> = set_all (leaf_paths kvs) (Obj [])"
    by (rule unflatten_fold [OF good]) simp
  also have "\<dots> = Inr (Obj ([] @ kvs))"
    by (rule set_all_leaf_paths [OF safe wf]) simp
  finally show ?thesis by (simp add: flat)
qed

section \<open>The claims\<close>

text \<open>
  C1 says that the walk stops at the first failure and returns the fallback, and
  that a key with a value such as 0 is not replaced by the fallback. The code
  tests the value for truthiness and goes on walking from the fallback:
  \<^verbatim>\<open>getNestedValue({a: 0}, 'a', 'd')\<close> is \<^verbatim>\<open>'d'\<close>, and
  \<^verbatim>\<open>getNestedValue({a: 1}, 'x.y', {y: 2})\<close> is \<^verbatim>\<open>2\<close>, read inside the fallback.
\<close>

theorem getNestedValue_replaces_found_and_walks_fallback:
  "getNestedValue (Obj [(''a'', Num 0)]) (Str ''a'') (Str ''d'') = Inr (Str ''d'')
   \<and> getNestedValue (Obj [(''a'', Num 1)]) (Str ''x.y'') (Obj [(''y'', Num 2)]) = Inr (Num 2)"
  by code_simp

text \<open>
  C2, as stated: for any root, reading the path after setting it gives the value
  back. A null root is returned as it is, and the read gives the fallback; a
  primitive root makes the assignment throw; and the assignment to the key
  \<^verbatim>\<open>__proto__\<close> of a Mapping that does not have it creates no property.
\<close>

theorem setNestedValue_null_root_counterexample:
  "setNestedValue Null (Str ''a'') (Num 1) = Inr Null
   \<and> getNestedValue Null (Str ''a'') Undefined = Inr Undefined
   \<and> setNestedValue (Num 5) (Str ''a'') (Num 1) = Inl TypeError
   \<and> setNestedValue (Obj []) (Str ''__proto__'') (Num 42) = Inr (Obj [])"
  by code_simp

text \<open>
  C2, amended. Let the root and every node \<open>setNestedValue\<close> assigns into along
  the path be a Mapping or a Sequence, where at a Mapping no key of the path is
  \<^verbatim>\<open>__proto__\<close>, unless it is an own key of that Mapping, and at a Sequence the key is
  one of its indices or, for the last key, its length (\<open>settable_walk\<close>). Then for
  every truthy value \<open>v\<close> the call returns the updated root, and \<open>getNestedValue\<close>
  without fallback reads \<open>v\<close> back from it. The other names of members of
  \<^verbatim>\<open>Object.prototype\<close> are keys like any other: the path of the example goes through
  an element of a Sequence and through \<^verbatim>\<open>constructor\<close>.
\<close>

theorem getNestedValue_after_setNestedValue:
  "settable_walk (butlast (split_dot p)) (last (split_dot p)) root \<Longrightarrow> truthy v \<Longrightarrow>
   \<exists>r. setNestedValue root (Str p) v = Inr r \<and> getNestedValue r (Str p) Undefined = Inr v"
proof -
  assume w: "settable_walk (butlast (split_dot p)) (last (split_dot p)) root" and t: "truthy v"
  from set_loop_get_loop [OF w t, of Undefined] obtain r where
    s: "set_loop (butlast (split_dot p)) (last (split_dot p)) root v = Inr r" and
    g: "get_loop (butlast (split_dot p) @ [last (split_dot p)]) r Undefined = Inr v"
    by blast
  from w have root: "truthy root \<and> typeof_object root"
    by (cases "butlast (split_dot p)"; cases root) auto
  from s root have "truthy r \<and> typeof_object r" by (rule set_loop_object)
  with g have "getNestedValue r (Str p) Undefined = Inr v"
    by (simp add: getNestedValue_def split_dot_nonempty)
  moreover from root s have "setNestedValue root (Str p) v = Inr r"
    by (simp add: setNestedValue_def)
  ultimately show ?thesis by blast
qed

theorem getNestedValue_after_setNestedValue_witness:
  "settable_walk (butlast (split_dot ''a.0.constructor.d'')) (last (split_dot ''a.0.constructor.d''))
     (Obj [(''a'', Arr [Obj [(''b'', Num 1)]])])
   \<and> truthy (Num 42)
   \<and> (\<exists>r. setNestedValue (Obj [(''a'', Arr [Obj [(''b'', Num 1)]])]) (Str ''a.0.constructor.d'')
              (Num 42)
            = Inr r
          \<and> getNestedValue r (Str ''a.0.constructor.d'') Undefined = Inr (Num 42))"
proof -
  have w: "settable_walk (butlast (split_dot ''a.0.constructor.d''))
     (last (split_dot ''a.0.constructor.d'')) (Obj [(''a'', Arr [Obj [(''b'', Num 1)]])])"
    by code_simp
  have t: "truthy (Num 42)" by simp
  from getNestedValue_after_setNestedValue [OF w t]
  have "\<exists>r. setNestedValue (Obj [(''a'', Arr [Obj [(''b'', Num 1)]])]) (Str ''a.0.constructor.d'')
              (Num 42)
            = Inr r
          \<and> getNestedValue r (Str ''a.0.constructor.d'') Undefined = Inr (Num 42)" .
  with w t show ?thesis by (intro conjI)
qed

text \<open>
  C3, as stated: flattening and unflattening a Mapping that nests only Mappings
  and scalars gives an \<open>isEqual\<close> Mapping. An empty nested Mapping has no leaf:
  \<^verbatim>\<open>{a: {}}\<close> flattens to \<^verbatim>\<open>{}\<close>, which unflattens to \<^verbatim>\<open>{}\<close>. And the own key
  \<^verbatim>\<open>__proto__\<close> of a nested Mapping is not set again by \<open>unflattenObject\<close>.
\<close>

theorem unflattenObject_empty_mapping_counterexample:
  "and_then (flattenObject (Obj [(''a'', Obj [])]) []) unflattenObject = Inr (Obj [])
   \<and> \<not> isEqual (Obj []) (Obj [(''a'', Obj [])])
   \<and> and_then (flattenObject (Obj [(''a'', Obj [(''__proto__'', Num 5)])]) []) unflattenObject
       = Inr (Obj [(''a'', Obj [])])
   \<and> \<not> isEqual (Obj [(''a'', Obj [])]) (Obj [(''a'', Obj [(''__proto__'', Num 5)])])"
  by code_simp

text \<open>
  C3, amended. For a Mapping whose keys contain no dot and are not \<^verbatim>\<open>__proto__\<close>,
  whose nested Mappings are not empty and, at the root, not under the empty key,
  in which no value of a Mapping is a date, and in which NaN does not occur,
  \<open>unflattenObject\<close> of \<open>flattenObject\<close> returns a Mapping that is \<open>isEqual\<close> to it.
  The conditions on keys and dates concern the Mapping and the Mappings nested
  in it; Sequences are leaves. The other names of members of \<^verbatim>\<open>Object.prototype\<close>
  are keys like any other: the example has the key \<^verbatim>\<open>constructor\<close>. NaN is excluded
  inside Sequences too, although the code passes a Sequence on by reference and
  finds it equal to itself: values are trees here, and the tree of such a
  Sequence is compared element by element.
\<close>

theorem unflattenObject_flattenObject:
  "roundtrip_safe kvs \<Longrightarrow> root_branch_keys_nonempty kvs \<Longrightarrow>
   well_formed (Obj kvs) \<Longrightarrow> nan_free (Obj kvs) \<Longrightarrow>
   \<exists>r. and_then (flattenObject (Obj kvs) []) unflattenObject = Inr r \<and> isEqual r (Obj kvs)"
  by (simp add: unflatten_flatten isEqual_refl del: well_formed.simps nan_free.simps)

theorem unflattenObject_flattenObject_witness:
  "roundtrip_safe [(''a'', Num 1), (''constructor'', Obj [(''c'', Null), ([], Obj [(''e'', Str ''x'')])])]
   \<and> root_branch_keys_nonempty
       [(''a'', Num 1), (''constructor'', Obj [(''c'', Null), ([], Obj [(''e'', Str ''x'')])])]
   \<and> well_formed (Obj [(''a'', Num 1), (''constructor'', Obj [(''c'', Null), ([], Obj [(''e'', Str ''x'')])])])
   \<and> nan_free (Obj [(''a'', Num 1), (''constructor'', Obj [(''c'', Null), ([], Obj [(''e'', Str ''x'')])])])
   \<and> (\<exists>r. and_then (flattenObject
              (Obj [(''a'', Num 1), (''constructor'', Obj [(''c'', Null), ([], Obj [(''e'', Str ''x'')])])]) [])
             unflattenObject
            = Inr r
          \<and> isEqual r (Obj [(''a'', Num 1), (''constructor'', Obj [(''c'', Null), ([], Obj [(''e'', Str ''x'')])])]))"
proof -
  let ?kvs = "[(''a'', Num 1), (''constructor'', Obj [(''c'', Null), ([], Obj [(''e'', Str ''x'')])])]"
  have a: "roundtrip_safe ?kvs" by code_simp
  have r: "root_branch_keys_nonempty ?kvs" by code_simp
  have b: "well_formed (Obj ?kvs)" by simp
  have c: "nan_free (Obj ?kvs)" by simp
  from unflattenObject_flattenObject [OF a r b c] a r b c show ?thesis by blast
qed

text \<open>
  C4, as stated: \<open>isEqual (deepClone x) x\<close> for every plain value, numbers
  included. NaN is a number, its clone is NaN, and \<open>isEqual\<close> compares primitives
  with \<^verbatim>\<open>===\<close>: the clone of NaN, or of a value that holds NaN, is not \<open>isEqual\<close>
  to its original. And the clone of a Mapping with the own key \<^verbatim>\<open>__proto__\<close> does not
  have that key: \<^verbatim>\<open>cloned['__proto__'] = 5\<close> creates no property.
\<close>

theorem deepClone_NaN_counterexample:
  "deepClone NaN = Inr NaN \<and> \<not> isEqual NaN NaN
   \<and> deepClone (Arr [NaN]) = Inr (Arr [NaN]) \<and> \<not> isEqual (Arr [NaN]) (Arr [NaN])
   \<and> deepClone (Obj [(''__proto__'', Num 5)]) = Inr (Obj [])
   \<and> \<not> isEqual (Obj []) (Obj [(''__proto__'', Num 5)])"
  by code_simp

text \<open>
  C4, amended. For every plain value \<open>x\<close> in which NaN does not occur and no
  Mapping has the own key \<^verbatim>\<open>__proto__\<close>, \<open>deepClone x\<close> returns a value that is
  \<open>isEqual\<close> to \<open>x\<close>.
\<close>

theorem isEqual_deepClone:
  "well_formed x \<Longrightarrow> nan_free x \<Longrightarrow> proto_free x \<Longrightarrow>
   \<exists>r. deepClone x = Inr r \<and> isEqual r x"
  by (simp add: deepClone_id isEqual_refl)

theorem isEqual_deepClone_witness:
  "well_formed (Obj [(''a'', Num 1), (''b'', Arr [Date 3, Null, Str ''s'', Obj [(''c'', Bool False)]])])
   \<and> nan_free (Obj [(''a'', Num 1), (''b'', Arr [Date 3, Null, Str ''s'', Obj [(''c'', Bool False)]])])
   \<and> proto_free (Obj [(''a'', Num 1), (''b'', Arr [Date 3, Null, Str ''s'', Obj [(''c'', Bool False)]])])
   \<and> (\<exists>r. deepClone (Obj [(''a'', Num 1), (''b'', Arr [Date 3, Null, Str ''s'', Obj [(''c'', Bool False)]])])
            = Inr r
          \<and> isEqual r (Obj [(''a'', Num 1), (''b'', Arr [Date 3, Null, Str ''s'', Obj [(''c'', Bool False)]])]))"
proof -
  let ?x = "Obj [(''a'', Num 1), (''b'', Arr [Date 3, Null, Str ''s'', Obj [(''c'', Bool False)]])]"
  have w: "well_formed ?x" by simp
  have n: "nan_free ?x" by simp
  have p: "proto_free ?x" by simp
  from isEqual_deepClone [OF w n p] w n p show ?thesis by blast
qed




text \<open>
  C6, as stated: an argument that is not a Mapping, a Sequence included,
  contributes nothing. The guard of the reduction is
  \<^verbatim>\<open>obj && typeof obj === 'object'\<close>, which an array passes: its elements are merged
  in under their indices.
\<close>

theorem deepMerge_sequence_argument_counterexample:
  "deepMerge [Obj [(''a'', Num 1)], Arr [Str ''x'']]
     = Inr (Obj [(''a'', Num 1), (''0'', Str ''x'')])
   \<and> deepMerge [Obj [(''a'', Num 1)]] = Inr (Obj [(''a'', Num 1)])
   \<and> \<not> isEqual (Obj [(''a'', Num 1), (''0'', Str ''x'')]) (Obj [(''a'', Num 1)])"
  by code_simp

text \<open>
  C6, amended. An argument that is a primitive, null or undefined, or that has no
  own keys (a date, the empty Sequence, the empty Mapping) contributes nothing:
  with it at any place of the argument list the result is the same value as
  without it.
\<close>

theorem deepMerge_skips_argument:
  "\<not> (truthy v \<and> typeof_object v) \<or> own_fields v = [] \<Longrightarrow>
   deepMerge (xs @ v # ys) = deepMerge (xs @ ys)"
  by (simp only: deepMerge.simps reduce_objects_append reduce_objects_skip)

theorem deepMerge_skips_argument_witness:
  "deepMerge ([Obj [(''a'', Num 1)]] @ Str ''s'' # [Obj [(''b'', Num 2)]])
     = deepMerge ([Obj [(''a'', Num 1)]] @ [Obj [(''b'', Num 2)]])
   \<and> deepMerge ([Obj [(''a'', Num 1)]] @ Arr [] # [Obj [(''b'', Num 2)]])
     = deepMerge ([Obj [(''a'', Num 1)]] @ [Obj [(''b'', Num 2)]])
   \<and> deepMerge ([Obj [(''a'', Num 1)]] @ [Obj [(''b'', Num 2)]])
     = Inr (Obj [(''a'', Num 1), (''b'', Num 2)])"
proof -
  have "deepMerge ([Obj [(''a'', Num 1)]] @ Str ''s'' # [Obj [(''b'', Num 2)]])
     = deepMerge ([Obj [(''a'', Num 1)]] @ [Obj [(''b'', Num 2)]])"
    by (rule deepMerge_skips_argument) simp
  moreover have "deepMerge ([Obj [(''a'', Num 1)]] @ Arr [] # [Obj [(''b'', Num 2)]])
     = deepMerge ([Obj [(''a'', Num 1)]] @ [Obj [(''b'', Num 2)]])"
    by (rule deepMerge_skips_argument) simp
  moreover have "deepMerge ([Obj [(''a'', Num 1)]] @ [Obj [(''b'', Num 2)]])
     = Inr (Obj [(''a'', Num 1), (''b'', Num 2)])"
    by code_simp
  ultimately show ?thesis by simp
qed

text \<open>
  C7, as stated: one entry per leaf, dates included, keyed by the dot-joined
  path. A date is an object that is neither null nor an array: the code descends
  into it, finds no key and writes no entry. A nested Mapping under the empty key
  of the root is flattened as if it were the root, two leaves with the same
  dot-joined path share one entry, and a leaf under the key \<^verbatim>\<open>__proto__\<close> of the
  root gets no entry: \<^verbatim>\<open>acc['__proto__'] = 5\<close> creates no property.
\<close>

theorem flattenObject_date_counterexample:
  "flattenObject (Obj [(''d'', Date 0)]) [] = Inr (Obj [])
   \<and> leaf_entries [(''d'', Date 0)] = [(''d'', Date 0)]
   \<and> flattenObject (Obj [([], Obj [(''a'', Num 1)])]) []
       \<noteq> Inr (Obj (leaf_entries [([], Obj [(''a'', Num 1)])]))
   \<and> flattenObject (Obj [(''a.b'', Num 1), (''a'', Obj [(''b'', Num 2)])]) []
       \<noteq> Inr (Obj (leaf_entries [(''a.b'', Num 1), (''a'', Obj [(''b'', Num 2)])]))
   \<and> flattenObject (Obj [(''__proto__'', Num 5)]) [] = Inr (Obj [])
   \<and> leaf_entries [(''__proto__'', Num 5)] = [(''__proto__'', Num 5)]"
  by code_simp

text \<open>
  C7, amended. For a Mapping in which no value of a nested Mapping is a date, no
  key of the root that leads to a nested Mapping is empty, the dot-joined paths
  of the leaves are pairwise distinct and none of them is \<^verbatim>\<open>__proto__\<close>,
  \<open>flattenObject\<close> returns exactly the entries of the leaves (Sequences and
  primitive scalars, null included), each keyed by its dot-joined path.
\<close>

theorem flattenObject_leaf_entries:
  "date_free kvs \<Longrightarrow> root_branch_keys_nonempty kvs \<Longrightarrow>
   distinct (map fst (leaf_entries kvs)) \<Longrightarrow> ''__proto__'' \<notin> fst ` set (leaf_entries kvs) \<Longrightarrow>
   flattenObject (Obj kvs) [] = Inr (Obj (leaf_entries kvs))"
  by (rule flattenObject_eq_leaf_entries)

theorem flattenObject_leaf_entries_witness:
  "date_free [(''a'', Num 1), (''b'', Obj [(''c'', Null), ([], Obj [(''e'', Arr [Num 3])])])]
   \<and> root_branch_keys_nonempty
       [(''a'', Num 1), (''b'', Obj [(''c'', Null), ([], Obj [(''e'', Arr [Num 3])])])]
   \<and> distinct (map fst (leaf_entries
       [(''a'', Num 1), (''b'', Obj [(''c'', Null), ([], Obj [(''e'', Arr [Num 3])])])]))
   \<and> ''__proto__'' \<notin> fst ` set (leaf_entries
       [(''a'', Num 1), (''b'', Obj [(''c'', Null), ([], Obj [(''e'', Arr [Num 3])])])])
   \<and> flattenObject (Obj [(''a'', Num 1), (''b'', Obj [(''c'', Null), ([], Obj [(''e'', Arr [Num 3])])])]) []
       = Inr (Obj [(''a'', Num 1), (''b.c'', Null), (''b..e'', Arr [Num 3])])"
proof -
  let ?kvs = "[(''a'', Num 1), (''b'', Obj [(''c'', Null), ([], Obj [(''e'', Arr [Num 3])])])]"
  have e: "leaf_entries ?kvs = [(''a'', Num 1), (''b.c'', Null), (''b..e'', Arr [Num 3])]"
    by (simp add: leaf_entries_def)
  have a: "date_free ?kvs" by simp
  have b: "root_branch_keys_nonempty ?kvs" by code_simp
  have c: "distinct (map fst (leaf_entries ?kvs))" unfolding e by simp
  have d: "''__proto__'' \<notin> fst ` set (leaf_entries ?kvs)" unfolding e by simp
  from flattenObject_leaf_entries [OF a b c d] a b c d e show ?thesis by simp
qed

text \<open>
  C8. Any two dates are \<open>isEqual\<close>, whatever their time values, and a date is
  \<open>isEqual\<close> to the Mapping without keys: a date is an object without own keys,
  and its time value is never read.
\<close>

theorem isEqual_ignores_dates:
  "isEqual (Date t1) (Date t2) \<and> isEqual (Date t1) (Obj [])"
  by (simp add: isEqual.simps [of "Date t1"])

text \<open>
  C9, as stated: \<open>isEqual (deepMerge [m]) m\<close> for every Mapping \<open>m\<close>. A NaN in \<open>m\<close> is
  copied into the result, and \<open>isEqual\<close> compares the two NaN with \<^verbatim>\<open>===\<close>. And the
  result for a Mapping with the own key \<^verbatim>\<open>__proto__\<close> does not have that key:
  \<^verbatim>\<open>merged['__proto__'] = 5\<close> creates no property.
\<close>

theorem deepMerge_NaN_counterexample:
  "deepMerge [Obj [(''a'', NaN)]] = Inr (Obj [(''a'', NaN)])
   \<and> \<not> isEqual (Obj [(''a'', NaN)]) (Obj [(''a'', NaN)])
   \<and> deepMerge [Obj [(''__proto__'', Num 5)]] = Inr (Obj [])
   \<and> \<not> isEqual (Obj []) (Obj [(''__proto__'', Num 5)])"
  by code_simp

text \<open>
  C9, amended. For every Mapping \<open>m\<close> in which NaN does not occur and no key is
  \<^verbatim>\<open>__proto__\<close> (in \<open>m\<close> and in the Mappings nested in it, Sequences not entered),
  \<open>deepMerge [m]\<close> returns a value that is \<open>isEqual\<close> to \<open>m\<close>. The other names of
  members of \<^verbatim>\<open>Object.prototype\<close> are keys like any other: the example has the key
  \<^verbatim>\<open>toString\<close>, whose value is a Mapping. NaN is excluded inside Sequences too,
  although the code passes a Sequence on by reference and finds it equal to
  itself: values are trees here.
\<close>

theorem isEqual_deepMerge_identity:
  "well_formed (Obj kvs) \<Longrightarrow> nan_free (Obj kvs) \<Longrightarrow> plain_keys kvs \<Longrightarrow>
   \<exists>r. deepMerge [Obj kvs] = Inr r \<and> isEqual r (Obj kvs)"
  by (rule isEqual_deepMerge_single)

theorem isEqual_deepMerge_identity_witness:
  "well_formed (Obj [(''a'', Num 0), (''toString'', Obj [(''c'', Arr [Num 1]), (''d'', Date 5)])])
   \<and> nan_free (Obj [(''a'', Num 0), (''toString'', Obj [(''c'', Arr [Num 1]), (''d'', Date 5)])])
   \<and> plain_keys [(''a'', Num 0), (''toString'', Obj [(''c'', Arr [Num 1]), (''d'', Date 5)])]
   \<and> (\<exists>r. deepMerge [Obj [(''a'', Num 0), (''toString'', Obj [(''c'', Arr [Num 1]), (''d'', Date 5)])]]
            = Inr r
          \<and> isEqual r (Obj [(''a'', Num 0), (''toString'', Obj [(''c'', Arr [Num 1]), (''d'', Date 5)])]))"
proof -
  let ?kvs = "[(''a'', Num 0), (''toString'', Obj [(''c'', Arr [Num 1]), (''d'', Date 5)])]"
  have b: "well_formed (Obj ?kvs)" by simp
  have c: "nan_free (Obj ?kvs)" by simp
  have p: "plain_keys ?kvs" by code_simp
  from isEqual_deepMerge_identity [OF b c p] b c p show ?thesis by blast
qed

text \<open>
  C10. With a path that is not a string, or with a root that is null or
  undefined, \<open>setNestedValue\<close> returns the root as it was given: nothing is
  assigned.
\<close>

theorem setNestedValue_invalid_arguments:
  "\<not> typeof_string path \<or> nullish root \<Longrightarrow> setNestedValue root path v = Inr root"
  by (cases path; cases root; simp add: setNestedValue_def)

theorem setNestedValue_invalid_arguments_witness:
  "setNestedValue (Obj [(''a'', Num 1)]) (Num 3) (Num 2) = Inr (Obj [(''a'', Num 1)])
   \<and> setNestedValue Null (Str ''a.b'') (Num 2) = Inr Null"
proof -
  have "setNestedValue (Obj [(''a'', Num 1)]) (Num 3) (Num 2) = Inr (Obj [(''a'', Num 1)])"
    by (rule setNestedValue_invalid_arguments) simp
  moreover have "setNestedValue Null (Str ''a.b'') (Num 2) = Inr Null"
    by (rule setNestedValue_invalid_arguments) simp
  ultimately show ?thesis by simp
qed

end
